theory Spec2Isabelle
  imports Complex_Main
begin

section \<open>Strings of the dashboard\<close>

text \<open>
  A JavaScript string is a sequence of code units. The model uses \<^typ>\<open>string\<close>: every
  \<^typ>\<open>char\<close> is one code unit in the range U+0000 to U+00FF, so the text of the model is
  the Latin-1 part of what the page can hold. Chunks of the chat stream are the strings the
  page's \<^verbatim>\<open>TextDecoder\<close> returns (it is called with \<^verbatim>\<open>stream: true\<close>, so a chunk
  always holds whole characters).
\<close>

definition newline :: char where
  "newline = CHR 0x0A"

definition dquote :: char where
  "dquote = CHR 0x22"

text \<open>\<^verbatim>\<open>s.split('\n')\<close>: the pieces between line feeds; one piece more than there are line feeds.\<close>

fun split_lines :: "string \<Rightarrow> string list" where
  "split_lines [] = [[]]"
| "split_lines (c # cs) =
     (if c = newline then [] # split_lines cs
      else (case split_lines cs of
              [] \<Rightarrow> [[c]]
            | l # ls \<Rightarrow> (c # l) # ls))"

text \<open>
  \<^verbatim>\<open>s.trim()\<close>: white space and line terminators are removed at both ends. Of the code units
  below U+0100 these are tab, line feed, vertical tab, form feed, carriage return, space and
  the no-break space.
\<close>

definition is_space :: "char \<Rightarrow> bool" where
  "is_space c = (c \<in> {CHR 0x09, CHR 0x0A, CHR 0x0B, CHR 0x0C, CHR 0x0D, CHR 0x20, CHR 0xA0})"

definition trim :: "string \<Rightarrow> string" where
  "trim s = rev (dropWhile is_space (rev (dropWhile is_space s)))"

section \<open>escapeHtml (core utilities)\<close>






section \<open>The chat stream (sendChatMessage)\<close>

text \<open>
  The body of a frame, once \<^verbatim>\<open>JSON.parse\<close> has accepted it, is read through its two fields
  \<^verbatim>\<open>type\<close> and \<^verbatim>\<open>content\<close>. \<open>econtent = None\<close> is an absent \<^verbatim>\<open>content\<close>.
  The parser is a parameter of the consumer: \<open>parse body = None\<close> stands for
  \<^verbatim>\<open>JSON.parse\<close> throwing, which the \<^verbatim>\<open>catch\<close> of the loop body swallows.
\<close>

datatype event = Event (etype: string) (econtent: "string option")

type_synonym parser = "string \<Rightarrow> event option"

text \<open>
  The chat view: the messages of \<^verbatim>\<open>#chat-messages\<close> in document order. A message is
  either the one with the id \<^verbatim>\<open>streaming-message\<close> or has a persisted id
  \<^verbatim>\<open>msg-<time>\<close> (the time in it is never read back by the consumer and is left out).
  \<open>body\<close> is the text handed to \<^verbatim>\<open>formatMessage\<close>.
\<close>

datatype msg_id = StreamingMessage | Persisted

datatype chat_msg = ChatMsg (mid: msg_id) (role: string) (body: string)

record session =
  responseContent :: string
  messages :: "chat_msg list"

text \<open>
  \<^verbatim>\<open>addChatMessage('assistant', content, true)\<close>: the first element with the id
  \<^verbatim>\<open>streaming-message\<close> has its content replaced; when there is none, a new message with
  that id is appended.
\<close>

fun replace_streaming :: "string \<Rightarrow> chat_msg list \<Rightarrow> chat_msg list option" where
  "replace_streaming c [] = None"
| "replace_streaming c (m # ms) =
     (if mid m = StreamingMessage then Some (ChatMsg StreamingMessage (role m) c # ms)
      else map_option ((#) m) (replace_streaming c ms))"

definition addChatMessage_streaming :: "string \<Rightarrow> chat_msg list \<Rightarrow> chat_msg list" where
  "addChatMessage_streaming c ms =
     (case replace_streaming c ms of
        Some ms' \<Rightarrow> ms'
      | None \<Rightarrow> ms @ [ChatMsg StreamingMessage ''assistant'' c])"

text \<open>The \<^verbatim>\<open>done\<close> branch: the streaming message, when there is one, gets a persisted id.\<close>

fun seal_streaming :: "chat_msg list \<Rightarrow> chat_msg list" where
  "seal_streaming [] = []"
| "seal_streaming (m # ms) =
     (if mid m = StreamingMessage then ChatMsg Persisted (role m) (body m) # ms
      else m # seal_streaming ms)"

text \<open>
  \<^verbatim>\<open>
  if (event.type === 'text' || event.type === 'content') {
      responseContent += (event.content || '') + '\n';
      addChatMessage('assistant', responseContent.trim(), true);
  } else if (event.type === 'result' && event.content) {
      responseContent = event.content;
      addChatMessage('assistant', responseContent, true);
  } else if (event.type === 'error') {
      addChatMessage('assistant', `Error: ${event.content}`, true);
  } else if (event.type === 'done') {
      const streaming = document.getElementById('streaming-message');
      if (streaming) streaming.id = `msg-${Date.now()}`;
  }
  \<close>
\<close>

definition content_or_empty :: "event \<Rightarrow> string" where
  "content_or_empty ev = (case econtent ev of None \<Rightarrow> [] | Some c \<Rightarrow> c)"

definition content_truthy :: "event \<Rightarrow> bool" where
  "content_truthy ev = (case econtent ev of None \<Rightarrow> False | Some c \<Rightarrow> c \<noteq> [])"

definition content_interpolated :: "event \<Rightarrow> string" where
  "content_interpolated ev = (case econtent ev of None \<Rightarrow> ''undefined'' | Some c \<Rightarrow> c)"

definition handle_event :: "event \<Rightarrow> session \<Rightarrow> session" where
  "handle_event ev st =
     (if etype ev = ''text'' \<or> etype ev = ''content'' then
        (let rc = responseContent st @ content_or_empty ev @ [newline]
         in st\<lparr>responseContent := rc,
                messages := addChatMessage_streaming (trim rc) (messages st)\<rparr>)
      else if etype ev = ''result'' \<and> content_truthy ev then
        (let rc = content_or_empty ev
         in st\<lparr>responseContent := rc,
                messages := addChatMessage_streaming rc (messages st)\<rparr>)
      else if etype ev = ''error'' then
        st\<lparr>messages := addChatMessage_streaming (''Error: '' @ content_interpolated ev) (messages st)\<rparr>
      else if etype ev = ''done'' then
        st\<lparr>messages := seal_streaming (messages st)\<rparr>
      else st)"

text \<open>
  One line of a chunk:
  \<^verbatim>\<open>
  if (!line.startsWith('data: ')) continue;
  try { const event = JSON.parse(line.slice(6)); ... } catch (e) { /* Ignore parse errors */ }
  \<close>
  \<open>line_event\<close> is the event the line delivers to the branches above, if any.
\<close>

definition line_event :: "parser \<Rightarrow> string \<Rightarrow> event option" where
  "line_event parse line =
     (if take 6 line = ''data: '' then parse (drop 6 line) else None)"

definition handle_line :: "parser \<Rightarrow> session \<Rightarrow> string \<Rightarrow> session" where
  "handle_line parse st line =
     (case line_event parse line of
        None \<Rightarrow> st
      | Some ev \<Rightarrow> handle_event ev st)"

text \<open>
  The read loop: every chunk is split at line feeds on its own and its lines are handled in
  order.
  \<^verbatim>\<open>
  while (true) {
      const { done, value } = await reader.read();
      if (done) break;
      const chunk = decoder.decode(value, { stream: true });
      const lines = chunk.split('\n');
      for (const line of lines) { ... }
  }
  \<close>
\<close>

definition consume_chunk :: "parser \<Rightarrow> session \<Rightarrow> string \<Rightarrow> session" where
  "consume_chunk parse st chunk = foldl (handle_line parse) st (split_lines chunk)"

definition consume :: "parser \<Rightarrow> session \<Rightarrow> string list \<Rightarrow> session" where
  "consume parse st chunks = foldl (consume_chunk parse) st chunks"

text \<open>The events a sequence of chunks delivers, in the order the loop handles them.\<close>

definition chunk_events :: "parser \<Rightarrow> string \<Rightarrow> event list" where
  "chunk_events parse chunk = List.map_filter (line_event parse) (split_lines chunk)"

definition stream_events :: "parser \<Rightarrow> string list \<Rightarrow> event list" where
  "stream_events parse chunks = concat (map (chunk_events parse) chunks)"

text \<open>
  A parser for the concrete streams below. It accepts the two shapes
  \<^verbatim>\<open>{"type":"T"}\<close> and \<^verbatim>\<open>{"type":"T","content":"C"}\<close>, with \<open>T\<close> and \<open>C\<close> free of
  quotes, backslashes and control characters, on which it returns what \<^verbatim>\<open>JSON.parse\<close>
  and the two field reads return. It is applied below only to bodies of these shapes and to
  text that is not JSON at all, which \<^verbatim>\<open>JSON.parse\<close> rejects as well.
\<close>

definition plain_char :: "char \<Rightarrow> bool" where
  "plain_char c = (c \<noteq> dquote \<and> c \<noteq> CHR 0x5C \<and> 32 \<le> (of_char c :: nat))"

fun read_string :: "string \<Rightarrow> (string \<times> string) option" where
  "read_string [] = None"
| "read_string (c # cs) =
     (if c = dquote then Some ([], cs)
      else if plain_char c then map_option (\<lambda>(s, r). (c # s, r)) (read_string cs)
      else None)"

definition expect :: "string \<Rightarrow> string \<Rightarrow> string option" where
  "expect p s = (if take (length p) s = p then Some (drop (length p) s) else None)"

definition type_key :: string where
  "type_key = CHR ''{'' # dquote # ''type'' @ dquote # CHR '':'' # [dquote]"

definition content_key :: string where
  "content_key = CHR '','' # dquote # ''content'' @ dquote # CHR '':'' # [dquote]"

definition parse_frame :: parser where
  "parse_frame s =
     (case expect type_key s of
        None \<Rightarrow> None
      | Some r1 \<Rightarrow>
          (case read_string r1 of
             None \<Rightarrow> None
           | Some (t, r2) \<Rightarrow>
               if r2 = ''}'' then Some (Event t None)
               else (case expect content_key r2 of
                       None \<Rightarrow> None
                     | Some r3 \<Rightarrow>
                         (case read_string r3 of
                            None \<Rightarrow> None
                          | Some (c, r4) \<Rightarrow>
                              if r4 = ''}'' then Some (Event t (Some c)) else None))))"

text \<open>The frames the concrete streams are built from.\<close>

definition quoted :: "string \<Rightarrow> string" where
  "quoted s = dquote # s @ [dquote]"

definition frame_body :: "string \<Rightarrow> string \<Rightarrow> string" where
  "frame_body t c = ''{'' @ quoted ''type'' @ '':'' @ quoted t @ '','' @ quoted ''content'' @ '':'' @ quoted c @ ''}''"

definition frame :: "string \<Rightarrow> string" where
  "frame b = ''data: '' @ b @ [newline]"

definition empty_session :: session where
  "empty_session = \<lparr>responseContent = [], messages = []\<rparr>"

definition hello_frame :: string where
  "hello_frame = frame (frame_body ''text'' ''hi'')"

definition done_frame :: string where
  "done_frame = frame (frame_body ''done'' [])"

definition broken_frame :: string where
  "broken_frame = frame ''{oops''"

section \<open>Interval timers and the three pollers\<close>

text \<open>
  The browser's interval timers: \<^verbatim>\<open>setInterval(f, ms)\<close> registers a timer under a fresh
  id greater than zero and returns the id; \<^verbatim>\<open>clearInterval(id)\<close> removes the timer with
  that id. A timer holds the function it invokes and its period.
\<close>

datatype callback = RefreshServiceLogs | LoadSupervisorLogs | SecurityPollTick string

record timer =
  tid :: nat
  callback :: callback
  intervalMs :: nat

text \<open>A scrollable element, in pixels: the three properties the page reads and writes.\<close>

record viewport =
  scrollHeight :: int
  scrollTop :: int
  clientHeight :: int

text \<open>
  The page: the live timers and the next timer id (the browser's side), the module
  variables of monitoring.js, services.js and the core utilities, the two "live" checkboxes,
  and the tick functions invoked so far, in order.
\<close>

record page =
  timers :: "timer list"
  next_timer :: nat
  logsInterval :: "nat option"
  supervisorLogsInterval :: "nat option"
  securityPollInterval :: "nat option"
  logs_live :: bool
  supervisor_logs_live :: bool
  logsUserScrolled :: bool
  supervisorLogsUserScrolled :: bool
  currentService :: "string option"
  invoked :: "callback list"

definition setInterval :: "callback \<Rightarrow> nat \<Rightarrow> page \<Rightarrow> page" where
  "setInterval f ms p =
     p\<lparr>timers := timers p @ [\<lparr>tid = next_timer p, callback = f, intervalMs = ms\<rparr>],
       next_timer := Suc (next_timer p)\<rparr>"

definition clearInterval :: "nat \<Rightarrow> page \<Rightarrow> page" where
  "clearInterval i p = p\<lparr>timers := filter (\<lambda>t. tid t \<noteq> i) (timers p)\<rparr>"

text \<open>\<^verbatim>\<open>if (handle)\<close>: a handle is truthy when it is a timer id other than zero.\<close>

definition truthy_handle :: "nat option \<Rightarrow> bool" where
  "truthy_handle h = (case h of None \<Rightarrow> False | Some i \<Rightarrow> i \<noteq> 0)"

text \<open>
  \<^verbatim>\<open>
  function stopLogsInterval() {
      if (logsInterval) { clearInterval(logsInterval); logsInterval = null; }
  }
  function startLogsInterval() {
      stopLogsInterval();
      if (document.getElementById('logs-live').checked) {
          logsInterval = setInterval(refreshServiceLogs, 1000);
      }
  }
  \<close>
\<close>

definition stopLogsInterval :: "page \<Rightarrow> page" where
  "stopLogsInterval p =
     (if truthy_handle (logsInterval p)
      then (clearInterval (the (logsInterval p)) p)\<lparr>logsInterval := None\<rparr>
      else p)"

definition startLogsInterval :: "page \<Rightarrow> page" where
  "startLogsInterval p =
     (let p1 = stopLogsInterval p
      in if logs_live p1
         then (setInterval RefreshServiceLogs 1000 p1)\<lparr>logsInterval := Some (next_timer p1)\<rparr>
         else p1)"

text \<open>The supervisor logs poller is written the same way, on its own variable and checkbox.\<close>

definition stopSupervisorLogsInterval :: "page \<Rightarrow> page" where
  "stopSupervisorLogsInterval p =
     (if truthy_handle (supervisorLogsInterval p)
      then (clearInterval (the (supervisorLogsInterval p)) p)\<lparr>supervisorLogsInterval := None\<rparr>
      else p)"

definition startSupervisorLogsInterval :: "page \<Rightarrow> page" where
  "startSupervisorLogsInterval p =
     (let p1 = stopSupervisorLogsInterval p
      in if supervisor_logs_live p1
         then (setInterval LoadSupervisorLogs 1000 p1)\<lparr>supervisorLogsInterval := Some (next_timer p1)\<rparr>
         else p1)"

text \<open>
  \<^verbatim>\<open>
  function startSecurityPoll(name) {
      stopSecurityPoll();
      securityPollInterval = setInterval(async () => { ... }, 2000);
  }
  function stopSecurityPoll() {
      if (securityPollInterval) { clearInterval(securityPollInterval); securityPollInterval = null; }
  }
  \<close>
  The timer's function asks for the latest scan of \<open>name\<close>; on a completed or failed scan
  it calls \<^verbatim>\<open>stopSecurityPoll\<close>.
\<close>

definition stopSecurityPoll :: "page \<Rightarrow> page" where
  "stopSecurityPoll p =
     (if truthy_handle (securityPollInterval p)
      then (clearInterval (the (securityPollInterval p)) p)\<lparr>securityPollInterval := None\<rparr>
      else p)"

definition startSecurityPoll :: "string \<Rightarrow> page \<Rightarrow> page" where
  "startSecurityPoll name p =
     (let p1 = stopSecurityPoll p
      in (setInterval (SecurityPollTick name) 2000 p1)\<lparr>securityPollInterval := Some (next_timer p1)\<rparr>)"

text \<open>A call of a tick function by the page's own code or by a timer.\<close>

definition invoke :: "callback \<Rightarrow> page \<Rightarrow> page" where
  "invoke f p = p\<lparr>invoked := invoked p @ [f]\<rparr>"

text \<open>The browser runs the function of timer \<open>i\<close>, when that timer is live.\<close>

definition fire :: "nat \<Rightarrow> page \<Rightarrow> page" where
  "fire i p =
     (case filter (\<lambda>t. tid t = i) (timers p) of
        [] \<Rightarrow> p
      | t # _ \<Rightarrow> invoke (callback t) p)"

text \<open>
  The listeners of the two checkboxes and of the two scrollable log elements:
  \<^verbatim>\<open>
  document.getElementById('logs-live').addEventListener('change', (e) => {
      updateLogsLiveIndicator(e.target.checked);
      if (e.target.checked) {
          logsUserScrolled = false;
          startLogsInterval();
          refreshServiceLogs();
      } else {
          stopLogsInterval();
      }
  });
  document.getElementById('logs-content').addEventListener('scroll', (e) => {
      const el = e.target;
      const atBottom = el.scrollHeight - el.scrollTop - el.clientHeight < 50;
      logsUserScrolled = !atBottom;
  });
  document.getElementById('supervisor-logs').addEventListener('scroll', (e) => {
      const el = e.target;
      const atTop = el.scrollTop < 50;
      supervisorLogsUserScrolled = !atTop;
  });
  \<close>
  The \<open>checked\<close> argument is the state of the checkbox the event reports; the viewport is
  the element at the time of the scroll event.
\<close>

definition atBottom :: "viewport \<Rightarrow> bool" where
  "atBottom el = (scrollHeight el - scrollTop el - clientHeight el < 50)"

definition atTop :: "viewport \<Rightarrow> bool" where
  "atTop el = (scrollTop el < 50)"

definition logs_live_change :: "bool \<Rightarrow> page \<Rightarrow> page" where
  "logs_live_change checked p =
     (let p0 = p\<lparr>logs_live := checked\<rparr>
      in if checked
         then invoke RefreshServiceLogs (startLogsInterval (p0\<lparr>logsUserScrolled := False\<rparr>))
         else stopLogsInterval p0)"

definition supervisor_logs_live_change :: "bool \<Rightarrow> page \<Rightarrow> page" where
  "supervisor_logs_live_change checked p =
     (let p0 = p\<lparr>supervisor_logs_live := checked\<rparr>
      in if checked
         then invoke LoadSupervisorLogs
                (startSupervisorLogsInterval (p0\<lparr>supervisorLogsUserScrolled := False\<rparr>))
         else stopSupervisorLogsInterval p0)"

definition logs_content_scroll :: "viewport \<Rightarrow> page \<Rightarrow> page" where
  "logs_content_scroll el p = p\<lparr>logsUserScrolled := \<not> atBottom el\<rparr>"

definition supervisor_logs_scroll :: "viewport \<Rightarrow> page \<Rightarrow> page" where
  "supervisor_logs_scroll el p = p\<lparr>supervisorLogsUserScrolled := \<not> atTop el\<rparr>"

text \<open>
  \<^verbatim>\<open>
  async function showServiceLogs(name) {
      currentService = name;
      logsUserScrolled = false;
      document.getElementById('logs-title').textContent = name;
      document.getElementById('logs-live').checked = true;
      updateLogsLiveIndicator(true);
      showModal('logs-modal');
      await refreshServiceLogs();
      startLogsInterval();
  }
  \<close>
  The function runs in two parts: up to the call of \<^verbatim>\<open>refreshServiceLogs\<close>, and, once the
  refresh has settled, the call of \<^verbatim>\<open>startLogsInterval\<close>.
\<close>

definition showServiceLogs_begin :: "string \<Rightarrow> page \<Rightarrow> page" where
  "showServiceLogs_begin name p =
     invoke RefreshServiceLogs
       (p\<lparr>currentService := Some name, logsUserScrolled := False, logs_live := True\<rparr>)"

definition showServiceLogs_resume :: "page \<Rightarrow> page" where
  "showServiceLogs_resume p = startLogsInterval p"

text \<open>
  \<^verbatim>\<open>closeLogsModal\<close> stops the service logs poller and hides the modal.
  \<^verbatim>\<open>switchTab(tab)\<close>, as far as the pollers go:
  \<^verbatim>\<open>
  if (tab !== 'logs' && typeof stopSupervisorLogsInterval === 'function') {
      stopSupervisorLogsInterval();
  }
  if (tab === 'logs' && typeof loadSupervisorLogs === 'function') {
      loadSupervisorLogs();
      if (typeof startSupervisorLogsInterval === 'function') startSupervisorLogsInterval();
  }
  \<close>
\<close>

definition closeLogsModal :: "page \<Rightarrow> page" where
  "closeLogsModal p = stopLogsInterval p"

definition switchTab :: "string \<Rightarrow> page \<Rightarrow> page" where
  "switchTab tab p =
     (let p1 = (if tab \<noteq> ''logs'' then stopSupervisorLogsInterval p else p)
      in if tab = ''logs'' then startSupervisorLogsInterval (invoke LoadSupervisorLogs p1)
         else p1)"

text \<open>
  The page after its scripts have run: no timer of the three pollers, no handle, both
  follow flags clear. The two checkboxes are as the document declares them.
\<close>

definition init_page :: "bool \<Rightarrow> bool \<Rightarrow> page" where
  "init_page live sup_live =
     \<lparr>timers = [], next_timer = 1,
      logsInterval = None, supervisorLogsInterval = None, securityPollInterval = None,
      logs_live = live, supervisor_logs_live = sup_live,
      logsUserScrolled = False, supervisorLogsUserScrolled = False,
      currentService = None, invoked = []\<rparr>"

text \<open>What can happen to the page, and a run of such steps.\<close>

datatype poller = ServiceLogs | SupervisorLogs | SecurityScan

datatype call =
    StartLogsInterval
  | StopLogsInterval
  | StartSupervisorLogsInterval
  | StopSupervisorLogsInterval
  | StartSecurityPoll string
  | StopSecurityPoll
  | LogsLiveChange bool
  | SupervisorLogsLiveChange bool
  | LogsContentScroll viewport
  | SupervisorLogsScroll viewport
  | ShowServiceLogs string
  | CloseLogsModal
  | SwitchTab string
  | Fire nat

fun step :: "call \<Rightarrow> page \<Rightarrow> page" where
  "step StartLogsInterval p = startLogsInterval p"
| "step StopLogsInterval p = stopLogsInterval p"
| "step StartSupervisorLogsInterval p = startSupervisorLogsInterval p"
| "step StopSupervisorLogsInterval p = stopSupervisorLogsInterval p"
| "step (StartSecurityPoll name) p = startSecurityPoll name p"
| "step StopSecurityPoll p = stopSecurityPoll p"
| "step (LogsLiveChange b) p = logs_live_change b p"
| "step (SupervisorLogsLiveChange b) p = supervisor_logs_live_change b p"
| "step (LogsContentScroll el) p = logs_content_scroll el p"
| "step (SupervisorLogsScroll el) p = supervisor_logs_scroll el p"
| "step (ShowServiceLogs name) p = showServiceLogs_begin name p"
| "step CloseLogsModal p = closeLogsModal p"
| "step (SwitchTab tab) p = switchTab tab p"
| "step (Fire i) p = fire i p"

definition run :: "call list \<Rightarrow> page \<Rightarrow> page" where
  "run cs p = foldl (\<lambda>q c. step c q) p cs"

fun owner :: "callback \<Rightarrow> poller" where
  "owner RefreshServiceLogs = ServiceLogs"
| "owner LoadSupervisorLogs = SupervisorLogs"
| "owner (SecurityPollTick name) = SecurityScan"

fun handle :: "poller \<Rightarrow> page \<Rightarrow> nat option" where
  "handle ServiceLogs p = logsInterval p"
| "handle SupervisorLogs p = supervisorLogsInterval p"
| "handle SecurityScan p = securityPollInterval p"

text \<open>The live timers of a poller.\<close>

definition live :: "poller \<Rightarrow> page \<Rightarrow> timer list" where
  "live n p = filter (\<lambda>t. owner (callback t) = n) (timers p)"

fun starts :: "call \<Rightarrow> poller \<Rightarrow> bool" where
  "starts StartLogsInterval n = (n = ServiceLogs)"
| "starts StartSupervisorLogsInterval n = (n = SupervisorLogs)"
| "starts (StartSecurityPoll name) n = (n = SecurityScan)"
| "starts c n = False"

fun stops :: "call \<Rightarrow> poller \<Rightarrow> bool" where
  "stops StopLogsInterval n = (n = ServiceLogs)"
| "stops StopSupervisorLogsInterval n = (n = SupervisorLogs)"
| "stops StopSecurityPoll n = (n = SecurityScan)"
| "stops c n = False"

text \<open>
  The steps that call a poller's start function, directly or in a listener, and the steps
  that call its stop function and no start after it: the listeners of the two checkboxes,
  \<^verbatim>\<open>closeLogsModal\<close> and \<^verbatim>\<open>switchTab\<close> besides the functions themselves.
\<close>

fun calls_start :: "call \<Rightarrow> poller \<Rightarrow> bool" where
  "calls_start StartLogsInterval n = (n = ServiceLogs)"
| "calls_start (LogsLiveChange checked) n = (checked \<and> n = ServiceLogs)"
| "calls_start StartSupervisorLogsInterval n = (n = SupervisorLogs)"
| "calls_start (SupervisorLogsLiveChange checked) n = (checked \<and> n = SupervisorLogs)"
| "calls_start (SwitchTab tab) n = (tab = ''logs'' \<and> n = SupervisorLogs)"
| "calls_start (StartSecurityPoll name) n = (n = SecurityScan)"
| "calls_start c n = False"

fun calls_stop :: "call \<Rightarrow> poller \<Rightarrow> bool" where
  "calls_stop StopLogsInterval n = (n = ServiceLogs)"
| "calls_stop (LogsLiveChange checked) n = (\<not> checked \<and> n = ServiceLogs)"
| "calls_stop CloseLogsModal n = (n = ServiceLogs)"
| "calls_stop StopSupervisorLogsInterval n = (n = SupervisorLogs)"
| "calls_stop (SupervisorLogsLiveChange checked) n = (\<not> checked \<and> n = SupervisorLogs)"
| "calls_stop (SwitchTab tab) n = (tab \<noteq> ''logs'' \<and> n = SupervisorLogs)"
| "calls_stop StopSecurityPoll n = (n = SecurityScan)"
| "calls_stop c n = False"

definition count_starts :: "poller \<Rightarrow> call list \<Rightarrow> nat" where
  "count_starts n cs = length (filter (\<lambda>c. starts c n) cs)"

definition count_stops :: "poller \<Rightarrow> call list \<Rightarrow> nat" where
  "count_stops n cs = length (filter (\<lambda>c. stops c n) cs)"

text \<open>The checkbox that gates a poller's start; the security poll has none.\<close>

fun gate :: "poller \<Rightarrow> page \<Rightarrow> bool" where
  "gate ServiceLogs p = logs_live p"
| "gate SupervisorLogs p = supervisor_logs_live p"
| "gate SecurityScan p = True"

text \<open>
  What holds of every page a run reaches: timer ids are positive, distinct and below the
  next id; a poller whose handle is null has no live timer, and a poller whose handle is an
  id has exactly the timer with that id.
\<close>

definition timers_ok :: "page \<Rightarrow> bool" where
  "timers_ok p =
     (0 < next_timer p \<and> distinct (map tid (timers p))
      \<and> list_all (\<lambda>t. 0 < tid t \<and> tid t < next_timer p) (timers p))"

definition handle_ok :: "poller \<Rightarrow> page \<Rightarrow> bool" where
  "handle_ok n p =
     (case handle n p of
        None \<Rightarrow> live n p = []
      | Some i \<Rightarrow> 0 < i \<and> map tid (live n p) = [i])"

definition page_ok :: "page \<Rightarrow> bool" where
  "page_ok p = (timers_ok p \<and> handle_ok ServiceLogs p \<and> handle_ok SupervisorLogs p
                \<and> handle_ok SecurityScan p)"

section \<open>The log viewers\<close>

text \<open>
  Writing \<^verbatim>\<open>scrollTop\<close> clamps the value to the scrollable range. Replacing the content
  (\<^verbatim>\<open>innerHTML\<close>, \<^verbatim>\<open>textContent\<close>) gives the element the height of the new content,
  at least the height of its box, and keeps the scroll offset, clamped to the new range.
  \<open>h\<close> is the height the new content is laid out at.
\<close>

definition max_scroll :: "viewport \<Rightarrow> int" where
  "max_scroll v = max 0 (scrollHeight v - clientHeight v)"

definition set_scrollTop :: "int \<Rightarrow> viewport \<Rightarrow> viewport" where
  "set_scrollTop x v = v\<lparr>scrollTop := max 0 (min x (max_scroll v))\<rparr>"

definition set_content :: "int \<Rightarrow> viewport \<Rightarrow> viewport" where
  "set_content h v =
     (let v1 = v\<lparr>scrollHeight := max h (clientHeight v)\<rparr>
      in v1\<lparr>scrollTop := min (scrollTop v) (max_scroll v1)\<rparr>)"

text \<open>The reply of \<^verbatim>\<open>api\<close>: the request failed (the height of the error text), or the
  entries arrived (the height of their rendering).\<close>

datatype reply = Failed int | Loaded int

text \<open>
  \<^verbatim>\<open>
  async function refreshServiceLogs() {
      if (!currentService) return;
      ...
      try {
          const logs = await api('GET', path);
          const content = document.getElementById('logs-content');
          const wasAtBottom = content.scrollHeight - content.scrollTop - content.clientHeight < 50;
          content.innerHTML = logs.map(...).join('\n') || 'No logs';
          if (!logsUserScrolled || wasAtBottom) {
              content.scrollTop = content.scrollHeight;
          }
          ...
      } catch (e) {
          document.getElementById('logs-content').textContent = 'Error: ' + e.message;
      }
  }
  \<close>
  \<open>service\<close> is \<^verbatim>\<open>currentService\<close> at the call; \<open>userScrolled\<close> is
  \<^verbatim>\<open>logsUserScrolled\<close> and \<open>content\<close> the element when the reply arrives.
\<close>

definition refreshServiceLogs :: "string option \<Rightarrow> bool \<Rightarrow> reply \<Rightarrow> viewport \<Rightarrow> viewport" where
  "refreshServiceLogs service userScrolled r content =
     (if service = None \<or> service = Some [] then content
      else (case r of
              Failed h \<Rightarrow> set_content h content
            | Loaded h \<Rightarrow>
                (let wasAtBottom = (scrollHeight content - scrollTop content - clientHeight content < 50);
                     c1 = set_content h content
                 in if \<not> userScrolled \<or> wasAtBottom then set_scrollTop (scrollHeight c1) c1 else c1)))"

text \<open>
  \<^verbatim>\<open>
  async function loadSupervisorLogs() {
      const lines = document.getElementById('log-lines').value;
      const content = document.getElementById('supervisor-logs');
      const wasAtTop = content.scrollTop < 50;
      try {
          const res = await api('GET', `/supervisor/logs?lines=${lines}`);
          content.textContent = res.lines.reverse().join('');
          if (!supervisorLogsUserScrolled || wasAtTop) {
              content.scrollTop = 0;
          }
      } catch (e) {
          content.textContent = 'Error: ' + e.message;
      }
  }
  \<close>
  \<open>at_call\<close> is the element when the function is called (where \<^verbatim>\<open>wasAtTop\<close> is read);
  \<open>userScrolled\<close> and \<open>content\<close> are the flag and the element when the reply arrives.
\<close>

definition loadSupervisorLogs :: "viewport \<Rightarrow> bool \<Rightarrow> reply \<Rightarrow> viewport \<Rightarrow> viewport" where
  "loadSupervisorLogs at_call userScrolled r content =
     (let wasAtTop = (scrollTop at_call < 50)
      in (case r of
            Failed h \<Rightarrow> set_content h content
          | Loaded h \<Rightarrow>
              (let c1 = set_content h content
               in if \<not> userScrolled \<or> wasAtTop then set_scrollTop 0 c1 else c1)))"

text \<open>The pages and elements of the concrete cases below.\<close>

definition page0 :: page where
  "page0 = init_page True True"

definition reading :: viewport where
  "reading = \<lparr>scrollHeight = 1000, scrollTop = 300, clientHeight = 200\<rparr>"

definition at_end :: viewport where
  "at_end = \<lparr>scrollHeight = 1000, scrollTop = 800, clientHeight = 200\<rparr>"

definition fifty_from_end :: viewport where
  "fifty_from_end = \<lparr>scrollHeight = 1000, scrollTop = 750, clientHeight = 200\<rparr>"

section \<open>Numbers of the chart renderer\<close>

text \<open>
  A JavaScript number is \<^verbatim>\<open>NaN\<close>, an infinity, or a finite double, held here by its exact
  value. The sign of zero is not modelled (the one zero stands for both): it shows only in a
  division by zero, and the renderer divides only by the constants 2 and 4, by a count that
  is at least 1, by a time range it has tested to be positive and by the scale, which is
  never zero.
\<close>

datatype number = NaN | PosInf | NegInf | Num rat

definition pow2 :: "int \<Rightarrow> rat" where
  "pow2 e = (if 0 \<le> e then 2 ^ nat e else 1 / 2 ^ nat (- e))"

text \<open>The number of binary digits of a positive integer.\<close>

function bit_length :: "int \<Rightarrow> int" where
  "bit_length p = (if p \<le> 0 then 0 else 1 + bit_length (p div 2))"
  by pat_completeness auto
termination
  by (relation "measure nat") auto

declare bit_length.simps [simp del]

text \<open>\<open>ilog2 x\<close> is the integer \<open>k\<close> with \<open>2^k \<le> x < 2^(k+1)\<close>, for \<open>x > 0\<close>.\<close>

definition ilog2 :: "rat \<Rightarrow> int" where
  "ilog2 x =
     (let k = bit_length (fst (quotient_of x)) - bit_length (snd (quotient_of x))
      in if pow2 k \<le> x then k else k - 1)"

definition round_even :: "rat \<Rightarrow> int" where
  "round_even x =
     (let f = \<lfloor>x\<rfloor>; d = x - of_int f
      in if d < 1 / 2 then f else if 1 / 2 < d then f + 1 else if even f then f else f + 1)"

text \<open>
  Every arithmetic result is the exact result rounded to the nearest double, ties to even
  (IEEE 754 binary64): to a multiple of \<open>2^e\<close>, where \<open>e\<close> leaves 53 significant bits and is
  at least \<open>-1074\<close> (the subnormal range, where a result may round to zero); a result whose
  rounded magnitude reaches \<open>2^1024\<close> is an infinity.
\<close>

definition rnd :: "rat \<Rightarrow> number" where
  "rnd x =
     (if x = 0 then Num 0
      else (let e = max (ilog2 \<bar>x\<bar> - 52) (- 1074);
                n = round_even (\<bar>x\<bar> / pow2 e)
            in if n = 0 then Num 0
               else if 1024 \<le> ilog2 (of_int n * pow2 e) then (if 0 < x then PosInf else NegInf)
               else Num (sgn x * of_int n * pow2 e)))"

text \<open>
  The rounding to 53 significant bits alone, with no bound on the exponent. It is the value
  of \<open>rnd\<close> wherever the result is neither subnormal nor an infinity, and the properties
  below state error bounds with it.
\<close>

definition fl :: "rat \<Rightarrow> rat" where
  "fl x =
     (if x = 0 then 0
      else (let e = ilog2 \<bar>x\<bar> - 52
            in sgn x * of_int (round_even (\<bar>x\<bar> / pow2 e)) * pow2 e))"

text \<open>
  The four operations. An infinity less itself, an infinity times zero, an infinity divided
  by an infinity and zero divided by zero are \<^verbatim>\<open>NaN\<close>; a finite number divided by an
  infinity is zero, and a number other than zero divided by zero is an infinity.
\<close>

fun nadd :: "number \<Rightarrow> number \<Rightarrow> number" where
  "nadd (Num a) (Num b) = rnd (a + b)"
| "nadd NaN b = NaN"
| "nadd a NaN = NaN"
| "nadd PosInf NegInf = NaN"
| "nadd NegInf PosInf = NaN"
| "nadd PosInf b = PosInf"
| "nadd NegInf b = NegInf"
| "nadd a PosInf = PosInf"
| "nadd a NegInf = NegInf"

fun nsub :: "number \<Rightarrow> number \<Rightarrow> number" where
  "nsub (Num a) (Num b) = rnd (a - b)"
| "nsub NaN b = NaN"
| "nsub a NaN = NaN"
| "nsub PosInf PosInf = NaN"
| "nsub NegInf NegInf = NaN"
| "nsub PosInf b = PosInf"
| "nsub NegInf b = NegInf"
| "nsub a PosInf = NegInf"
| "nsub a NegInf = PosInf"

text \<open>The sign of a number that is not \<^verbatim>\<open>NaN\<close>: \<open>-1\<close>, 0 or 1.\<close>

fun nsgn :: "number \<Rightarrow> int" where
  "nsgn NaN = 0"
| "nsgn PosInf = 1"
| "nsgn NegInf = - 1"
| "nsgn (Num a) = (if a < 0 then - 1 else if a = 0 then 0 else 1)"

fun nmul :: "number \<Rightarrow> number \<Rightarrow> number" where
  "nmul (Num a) (Num b) = rnd (a * b)"
| "nmul NaN b = NaN"
| "nmul a NaN = NaN"
| "nmul a b =
     (if nsgn a * nsgn b = 0 then NaN else if 0 < nsgn a * nsgn b then PosInf else NegInf)"

fun ndiv :: "number \<Rightarrow> number \<Rightarrow> number" where
  "ndiv (Num a) (Num b) =
     (if b \<noteq> 0 then rnd (a / b)
      else if a = 0 then NaN else if 0 < a then PosInf else NegInf)"
| "ndiv NaN b = NaN"
| "ndiv a NaN = NaN"
| "ndiv (Num a) b = Num 0"
| "ndiv a (Num b) = (if 0 \<le> nsgn a * nsgn (Num b) then (if 0 < nsgn a then PosInf else NegInf)
                     else (if 0 < nsgn a then NegInf else PosInf))"
| "ndiv a b = NaN"

text \<open>Comparisons: every comparison with \<^verbatim>\<open>NaN\<close> is false.\<close>

fun nle :: "number \<Rightarrow> number \<Rightarrow> bool" where
  "nle (Num a) (Num b) = (a \<le> b)"
| "nle NaN b = False"
| "nle a NaN = False"
| "nle NegInf b = True"
| "nle a PosInf = True"
| "nle a b = False"

fun ngt :: "number \<Rightarrow> number \<Rightarrow> bool" where
  "ngt (Num a) (Num b) = (b < a)"
| "ngt NaN b = False"
| "ngt a NaN = False"
| "ngt NegInf b = False"
| "ngt a PosInf = False"
| "ngt a b = True"

text \<open>\<^verbatim>\<open>a || b\<close> on numbers: \<open>b\<close> when \<open>a\<close> is \<^verbatim>\<open>NaN\<close> or zero.\<close>

fun nfalsy :: "number \<Rightarrow> bool" where
  "nfalsy NaN = True"
| "nfalsy (Num a) = (a = 0)"
| "nfalsy a = False"

definition n_or :: "number \<Rightarrow> number \<Rightarrow> number" where
  "n_or a b = (if nfalsy a then b else a)"

text \<open>A whole number the page holds: a width, a height, a count, an index, a time value.\<close>

definition of_int_num :: "int \<Rightarrow> number" where
  "of_int_num i = Num (of_int i)"

text \<open>
  An entry of a value array: a number, \<^verbatim>\<open>null\<close>, or \<^verbatim>\<open>undefined\<close> (the field is
  missing in the reply). \<open>ToNumber\<close> is the conversion arithmetic and \<^verbatim>\<open>Math.max\<close> apply.
\<close>

datatype sample = Missing | NullValue | Value number

fun ToNumber :: "sample \<Rightarrow> number" where
  "ToNumber Missing = NaN"
| "ToNumber NullValue = Num 0"
| "ToNumber (Value n) = n"

fun sample_falsy :: "sample \<Rightarrow> bool" where
  "sample_falsy Missing = True"
| "sample_falsy NullValue = True"
| "sample_falsy (Value n) = nfalsy n"

text \<open>\<^verbatim>\<open>Math.max\<close> of one or more arguments: \<^verbatim>\<open>NaN\<close> when any argument is \<^verbatim>\<open>NaN\<close>.\<close>

fun max2 :: "number \<Rightarrow> number \<Rightarrow> number" where
  "max2 (Num a) (Num b) = Num (max a b)"
| "max2 NaN b = NaN"
| "max2 a NaN = NaN"
| "max2 PosInf b = PosInf"
| "max2 a PosInf = PosInf"
| "max2 NegInf b = b"
| "max2 a NegInf = a"

definition Math_max :: "sample \<Rightarrow> sample list \<Rightarrow> number" where
  "Math_max d ds = foldl max2 (ToNumber d) (map ToNumber ds)"

text \<open>
  The text of a number. \<^verbatim>\<open>x.toFixed(1)\<close> is \<^verbatim>\<open>NaN\<close>, \<^verbatim>\<open>Infinity\<close> or \<^verbatim>\<open>-Infinity\<close> for
  these three; for \<open>|x| < 10^21\<close> it is the decimal with one digit after the point that is
  nearest to the exact value of \<open>x\<close>, the larger one on a tie; for \<open>|x| \<ge> 10^21\<close> it is the
  text \<^verbatim>\<open>String(x)\<close> gives, in exponent notation (such as \<^verbatim>\<open>1e+21\<close>), whose digits
  are left to \<open>ExponentForm\<close> and not spelled out.
\<close>

datatype label = Label string | ExponentForm rat

definition digit :: "nat \<Rightarrow> char" where
  "digit d = char_of (48 + d)"

fun digits :: "nat \<Rightarrow> string" where
  "digits n = (if n < 10 then [digit n] else digits (n div 10) @ [digit (n mod 10)])"

declare digits.simps [simp del]

definition toFixed1 :: "number \<Rightarrow> label" where
  "toFixed1 x =
     (case x of
        NaN \<Rightarrow> Label ''NaN''
      | PosInf \<Rightarrow> Label ''Infinity''
      | NegInf \<Rightarrow> Label ''-Infinity''
      | Num r \<Rightarrow>
          if 10 ^ 21 \<le> \<bar>r\<bar> then ExponentForm r
          else (let n = nat \<lfloor>\<bar>r\<bar> * 10 + 1 / 2\<rfloor>
                in Label ((if r < 0 then ''-'' else []) @ digits (n div 10) @ ''.''
                          @ [digit (n mod 10)])))"

section \<open>drawChart\<close>

text \<open>
  The canvas calls that draw; assignments of styles (\<^verbatim>\<open>strokeStyle\<close>, \<^verbatim>\<open>fillStyle\<close>,
  \<^verbatim>\<open>lineWidth\<close>, \<^verbatim>\<open>textAlign\<close>, \<^verbatim>\<open>font\<close>) are left out.
\<close>

datatype canvas_call =
    ClearRect number number number number
  | FillText label number number
  | BeginPath
  | MoveTo number number
  | LineTo number number
  | Stroke
  | ClosePath
  | Fill
  | SetLineDash "nat list"

datatype js_error = TypeError

text \<open>\<^verbatim>\<open>const pad = { t: 10, b: 20, l: 50, r: 10 }\<close>\<close>

definition pad_t :: number where "pad_t = Num 10"
definition pad_b :: number where "pad_b = Num 20"
definition pad_l :: number where "pad_l = Num 50"
definition pad_r :: number where "pad_r = Num 10"

text \<open>
  \<^verbatim>\<open>const max = Math.max(...data) * 1.1 || 1;\<close> for a non-empty \<open>data\<close>. The literal
  \<^verbatim>\<open>1.1\<close> is the double nearest to 11/10.
\<close>

definition one_point_one :: number where
  "one_point_one = rnd (11 / 10)"

definition chart_max :: "sample \<Rightarrow> sample list \<Rightarrow> number" where
  "chart_max d ds = n_or (nmul (Math_max d ds) one_point_one) (Num 1)"

definition plotW :: "int \<Rightarrow> number" where
  "plotW w = nsub (nsub (of_int_num w) pad_l) pad_r"

definition plotH :: "int \<Rightarrow> number" where
  "plotH h = nsub (nsub (of_int_num h) pad_t) pad_b"

text \<open>
  The horizontal grid, line \<open>i\<close> of 0 to 4:
  \<^verbatim>\<open>
  const y = pad.t + (plotH / 4) * i;
  ctx.beginPath(); ctx.moveTo(pad.l, y); ctx.lineTo(w - pad.r, y); ctx.stroke();
  ctx.fillText((max - (max/4)*i).toFixed(1), pad.l - 5, y + 3);
  \<close>
\<close>

definition grid_y :: "int \<Rightarrow> nat \<Rightarrow> number" where
  "grid_y h i = nadd pad_t (nmul (ndiv (plotH h) (Num 4)) (of_int_num (int i)))"

definition grid_value :: "number \<Rightarrow> nat \<Rightarrow> number" where
  "grid_value mx i = nsub mx (nmul (ndiv mx (Num 4)) (of_int_num (int i)))"

definition grid_label :: "number \<Rightarrow> nat \<Rightarrow> label" where
  "grid_label mx i = toFixed1 (grid_value mx i)"

definition grid_line :: "int \<Rightarrow> int \<Rightarrow> number \<Rightarrow> nat \<Rightarrow> canvas_call list" where
  "grid_line w h mx i =
     [BeginPath, MoveTo pad_l (grid_y h i), LineTo (nsub (of_int_num w) pad_r) (grid_y h i), Stroke,
      FillText (grid_label mx i) (nsub pad_l (Num 5)) (nadd (grid_y h i) (Num 3))]"

definition horizontal_grid :: "int \<Rightarrow> int \<Rightarrow> number \<Rightarrow> canvas_call list" where
  "horizontal_grid w h mx = concat (map (grid_line w h mx) [0..<5])"

text \<open>The texts a list of canvas calls writes, in order.\<close>

fun texts :: "canvas_call list \<Rightarrow> label list" where
  "texts [] = []"
| "texts (FillText s x y # cs) = s # texts cs"
| "texts (c # cs) = texts cs"

text \<open>
  Dates. A date is invalid (\<open>None\<close>, its time value is \<^verbatim>\<open>NaN\<close>) or holds a time value,
  a whole number of milliseconds since the epoch, of magnitude at most \<open>8.64 * 10^15\<close>:
  a write of a time value beyond that makes the date invalid (\<open>TimeClip\<close>).

  The browser's time zone gives the offset of local time, in milliseconds, at each time
  value (\<open>utc_offset\<close>), and the offset by which a local time is read back as a time value
  (\<open>local_offset\<close>: where a change of the offset makes a local time come twice or not at
  all, JavaScript takes the offset before the change). The offset changes where daylight
  saving time starts or ends.
\<close>

type_synonym date = "int option"

record zone =
  utc_offset :: "int \<Rightarrow> int"
  local_offset :: "int \<Rightarrow> int"

fun getTime :: "date \<Rightarrow> number" where
  "getTime None = NaN"
| "getTime (Some t) = Num (of_int t)"

definition hour_ms :: int where
  "hour_ms = 3600000"

definition max_time :: int where
  "max_time = 8640000000000000"

definition TimeClip :: "int \<Rightarrow> date" where
  "TimeClip t = (if \<bar>t\<bar> \<le> max_time then Some t else None)"

definition LocalTime :: "zone \<Rightarrow> int \<Rightarrow> int" where
  "LocalTime z t = t + utc_offset z t"

definition UTC :: "zone \<Rightarrow> int \<Rightarrow> int" where
  "UTC z l = l - local_offset z l"

text \<open>
  On a valid date with time value \<open>t\<close>:
  \<^verbatim>\<open>setMinutes(0, 0, 0)\<close> goes back to the start of the local hour;
  \<^verbatim>\<open>setHours(getHours() + 1)\<close> goes to the local time one hour on;
  \<^verbatim>\<open>getHours()\<close> is the hour of the local day.
\<close>

definition setMinutes0 :: "zone \<Rightarrow> int \<Rightarrow> date" where
  "setMinutes0 z t = TimeClip (UTC z (LocalTime z t - LocalTime z t mod hour_ms))"

definition getHours :: "zone \<Rightarrow> int \<Rightarrow> nat" where
  "getHours z t = nat ((LocalTime z t div hour_ms) mod 24)"

definition setHours_next :: "zone \<Rightarrow> int \<Rightarrow> date" where
  "setHours_next z t = TimeClip (UTC z (LocalTime z t + hour_ms))"

definition hour_label :: "zone \<Rightarrow> int \<Rightarrow> string" where
  "hour_label z t =
     (let s = digits (getHours z t)
      in (if length s < 2 then ''0'' @ s else s) @ '':00'')"

text \<open>
  \<^verbatim>\<open>
  const firstHour = new Date(dates[0]);
  firstHour.setMinutes(0, 0, 0);
  if (firstHour.getTime() <= minTime) {
      firstHour.setHours(firstHour.getHours() + 1);
  }
  \<close>
\<close>

definition firstHour :: "zone \<Rightarrow> int \<Rightarrow> date" where
  "firstHour z minTime =
     (case setMinutes0 z minTime of
        None \<Rightarrow> None
      | Some f \<Rightarrow> if f \<le> minTime then setHours_next z f else Some f)"

text \<open>
  The clock of the loop \<^verbatim>\<open>while (hour.getTime() <= maxTime) { ...; hour.setHours(hour.getHours() + 1); }\<close>:
  the times at which the body runs. The loop ends when the date is invalid, too; the value
  is \<open>None\<close> when it does not end.
\<close>

partial_function (option) hour_clock :: "zone \<Rightarrow> date \<Rightarrow> int \<Rightarrow> int list option" where
  "hour_clock z hour maxTime =
     (case hour of
        None \<Rightarrow> Some []
      | Some t \<Rightarrow>
          if t \<le> maxTime
          then Option.bind (hour_clock z (setHours_next z t) maxTime) (\<lambda>hs. Some (t # hs))
          else Some [])"

declare hour_clock.simps [code]

text \<open>
  The body of the loop at one time of the clock:
  \<^verbatim>\<open>
  const x = pad.l + ((hour.getTime() - minTime) / timeRange) * plotW;
  if (x >= pad.l && x <= w - pad.r) {
      ctx.beginPath(); ctx.moveTo(x, pad.t); ctx.lineTo(x, pad.t + plotH); ctx.stroke();
      const label = hour.getHours().toString().padStart(2, '0') + ':00';
      ctx.fillText(label, x, h - 3);
  }
  \<close>
\<close>

definition time_x :: "int \<Rightarrow> number \<Rightarrow> number \<Rightarrow> number \<Rightarrow> number" where
  "time_x w t minTime timeRange =
     nadd pad_l (nmul (ndiv (nsub t minTime) timeRange) (plotW w))"

definition tick_inside :: "int \<Rightarrow> number \<Rightarrow> bool" where
  "tick_inside w x = (nle pad_l x \<and> nle x (nsub (of_int_num w) pad_r))"

definition tick_x :: "int \<Rightarrow> int \<Rightarrow> int \<Rightarrow> int \<Rightarrow> number" where
  "tick_x w minTime maxTime hour =
     time_x w (of_int_num hour) (of_int_num minTime)
       (nsub (of_int_num maxTime) (of_int_num minTime))"

definition tick_drawn :: "int \<Rightarrow> int \<Rightarrow> int \<Rightarrow> int \<Rightarrow> bool" where
  "tick_drawn w minTime maxTime hour = tick_inside w (tick_x w minTime maxTime hour)"

definition tick_calls :: "int \<Rightarrow> int \<Rightarrow> zone \<Rightarrow> int \<Rightarrow> int \<Rightarrow> int \<Rightarrow> canvas_call list" where
  "tick_calls w h z minTime maxTime hour =
     [BeginPath, MoveTo (tick_x w minTime maxTime hour) pad_t,
      LineTo (tick_x w minTime maxTime hour) (nadd pad_t (plotH h)), Stroke,
      FillText (Label (hour_label z hour)) (tick_x w minTime maxTime hour)
        (nsub (of_int_num h) (Num 3))]"

definition hour_tick :: "int \<Rightarrow> int \<Rightarrow> zone \<Rightarrow> int \<Rightarrow> int \<Rightarrow> int \<Rightarrow> canvas_call list" where
  "hour_tick w h z minTime maxTime hour =
     (if tick_drawn w minTime maxTime hour then tick_calls w h z minTime maxTime hour else [])"

text \<open>
  The hourly markers, drawn when \<^verbatim>\<open>timeRange > 0\<close> (so the first and the last date are
  valid and their time values are \<open>minTime\<close> and \<open>maxTime\<close>).
\<close>

definition dashed :: "int list \<Rightarrow> int \<Rightarrow> int \<Rightarrow> zone \<Rightarrow> int \<Rightarrow> int \<Rightarrow> canvas_call list" where
  "dashed hours w h z minTime maxTime =
     [SetLineDash [2, 2]] @ concat (map (hour_tick w h z minTime maxTime) hours)
     @ [SetLineDash []]"

definition hourly_markers :: "int \<Rightarrow> int \<Rightarrow> zone \<Rightarrow> int \<Rightarrow> int \<Rightarrow> canvas_call list option" where
  "hourly_markers w h z minTime maxTime =
     (case hour_clock z (firstHour z minTime) maxTime of
        None \<Rightarrow> None
      | Some hours \<Rightarrow> Some (dashed hours w h z minTime maxTime))"

definition markers :: "int \<Rightarrow> int \<Rightarrow> zone \<Rightarrow> date \<Rightarrow> date \<Rightarrow> canvas_call list option" where
  "markers w h z first_date last_date =
     (if ngt (nsub (getTime last_date) (getTime first_date)) (Num 0)
      then (case (first_date, last_date) of
              (Some minTime, Some maxTime) \<Rightarrow> hourly_markers w h z minTime maxTime
            | _ \<Rightarrow> Some [])
      else Some [])"

text \<open>
  The line, point \<open>i\<close> of the data:
  \<^verbatim>\<open>
  const x = timeRange > 0
      ? pad.l + ((dates[i].getTime() - minTime) / timeRange) * plotW
      : pad.l + (i / (data.length - 1 || 1)) * plotW;
  const y = pad.t + plotH - (data[i] / max) * plotH;
  if (i === 0) ctx.moveTo(x, y); else ctx.lineTo(x, y);
  \<close>
  In the first branch \<^verbatim>\<open>dates[i]\<close> must exist; the caller below sees to it.
\<close>

definition index_x :: "int \<Rightarrow> nat \<Rightarrow> nat \<Rightarrow> number" where
  "index_x w n i =
     nadd pad_l
       (nmul (ndiv (of_int_num (int i)) (n_or (nsub (of_int_num (int n)) (Num 1)) (Num 1)))
          (plotW w))"

definition point_x :: "int \<Rightarrow> number \<Rightarrow> number \<Rightarrow> date list \<Rightarrow> nat \<Rightarrow> nat \<Rightarrow> number" where
  "point_x w minTime timeRange dates n i =
     (if ngt timeRange (Num 0) then time_x w (getTime (dates ! i)) minTime timeRange
      else index_x w n i)"

definition point_y :: "int \<Rightarrow> number \<Rightarrow> sample \<Rightarrow> number" where
  "point_y h mx d = nsub (nadd pad_t (plotH h)) (nmul (ndiv (ToNumber d) mx) (plotH h))"

definition point :: "int \<Rightarrow> int \<Rightarrow> number \<Rightarrow> number \<Rightarrow> number \<Rightarrow> sample list \<Rightarrow> date list
    \<Rightarrow> nat \<Rightarrow> number \<times> number" where
  "point w h mx minTime timeRange data dates i =
     (point_x w minTime timeRange dates (length data) i, point_y h mx (data ! i))"

definition line_points :: "int \<Rightarrow> int \<Rightarrow> number \<Rightarrow> number \<Rightarrow> number \<Rightarrow> sample list \<Rightarrow> date list
    \<Rightarrow> (number \<times> number) list" where
  "line_points w h mx minTime timeRange data dates =
     map (point w h mx minTime timeRange data dates) [0..<length data]"

fun move_to :: "number \<times> number \<Rightarrow> canvas_call" where
  "move_to (x, y) = MoveTo x y"

fun line_to :: "number \<times> number \<Rightarrow> canvas_call" where
  "line_to (x, y) = LineTo x y"

fun path :: "(number \<times> number) list \<Rightarrow> canvas_call list" where
  "path [] = []"
| "path (p # ps) = move_to p # map line_to ps"

text \<open>
  The fill under the line:
  \<^verbatim>\<open>
  const lastX = timeRange > 0
      ? pad.l + ((dates[dates.length - 1].getTime() - minTime) / timeRange) * plotW
      : pad.l + plotW;
  ctx.lineTo(lastX, pad.t + plotH); ctx.lineTo(pad.l, pad.t + plotH);
  ctx.closePath(); ctx.fill();
  \<close>
\<close>

definition lastX :: "int \<Rightarrow> number \<Rightarrow> number \<Rightarrow> number \<Rightarrow> number" where
  "lastX w minTime maxTime timeRange =
     (if ngt timeRange (Num 0) then time_x w maxTime minTime timeRange
      else nadd pad_l (plotW w))"

text \<open>
  drawChart on a canvas whose width is set to \<open>w\<close> (the width of the parent less 24) and
  whose height is \<open>h\<close>, in a browser whose time zone is \<open>z\<close>. With no data it draws the
  placeholder. \<^verbatim>\<open>dates[0]\<close> of an empty \<open>timestamps\<close>, and \<^verbatim>\<open>dates[i]\<close> past its end
  in the line loop, is \<^verbatim>\<open>undefined\<close>, and the call of \<^verbatim>\<open>getTime\<close> on it throws. The
  value is \<open>None\<close> when the loop of the hourly markers does not end.
\<close>

definition drawChart :: "int \<Rightarrow> int \<Rightarrow> zone \<Rightarrow> sample list \<Rightarrow> date list
    \<Rightarrow> (js_error + canvas_call list) option" where
  "drawChart w h z data timestamps =
     (case data of
        [] \<Rightarrow>
          Some (Inr [ClearRect (Num 0) (Num 0) (of_int_num w) (of_int_num h),
                     FillText (Label ''No data'') (ndiv (of_int_num w) (Num 2))
                       (ndiv (of_int_num h) (Num 2))])
      | d # ds \<Rightarrow>
          (case timestamps of
             [] \<Rightarrow> Some (Inl TypeError)
           | t0 # ts \<Rightarrow>
               (let mx = chart_max d ds;
                    minTime = getTime t0;
                    maxTime = getTime (last timestamps);
                    timeRange = nsub maxTime minTime
                in case markers w h z t0 (last timestamps) of
                     None \<Rightarrow> None
                   | Some hourly \<Rightarrow>
                       if ngt timeRange (Num 0) \<and> length timestamps < length data
                       then Some (Inl TypeError)
                       else Some (Inr
                         ([ClearRect (Num 0) (Num 0) (of_int_num w) (of_int_num h)]
                          @ horizontal_grid w h mx
                          @ hourly
                          @ [BeginPath]
                          @ path (line_points w h mx minTime timeRange data timestamps)
                          @ [Stroke,
                             LineTo (lastX w minTime maxTime timeRange) (nadd pad_t (plotH h)),
                             LineTo pad_l (nadd pad_t (plotH h)),
                             ClosePath, Fill])))))"

text \<open>
  refreshMetrics, once the reply has arrived:
  \<^verbatim>\<open>
  const timestamps = metrics.map(m => m.timestamp);
  drawChart('cpu-chart', metrics.map(m => m.cpu_percent), timestamps, '#22c55e');
  drawChart('memory-chart', metrics.map(m => m.memory_mb), timestamps, '#3b82f6');
  drawChart('disk-chart', metrics.map(m => m.disk_mb || 0), timestamps, '#f59e0b');
  \<close>
  The three value arrays, as drawChart receives them.
\<close>

record metric =
  timestamp :: date
  cpu_percent :: sample
  memory_mb :: sample
  disk_mb :: sample

definition or_zero :: "sample \<Rightarrow> sample" where
  "or_zero d = (if sample_falsy d then Value (Num 0) else d)"

definition cpu_data :: "metric list \<Rightarrow> sample list" where
  "cpu_data metrics = map cpu_percent metrics"

definition memory_data :: "metric list \<Rightarrow> sample list" where
  "memory_data metrics = map memory_mb metrics"

definition disk_data :: "metric list \<Rightarrow> sample list" where
  "disk_data metrics = map (or_zero \<circ> disk_mb) metrics"

definition refreshMetrics :: "int \<Rightarrow> int \<Rightarrow> zone \<Rightarrow> metric list
    \<Rightarrow> (js_error + canvas_call list) option list" where
  "refreshMetrics w h z metrics =
     [drawChart w h z (cpu_data metrics) (map timestamp metrics),
      drawChart w h z (memory_data metrics) (map timestamp metrics),
      drawChart w h z (disk_data metrics) (map timestamp metrics)]"

text \<open>
  Time zones: one whose offset never changes, and one whose offset changes once, at the time
  value \<open>change\<close>, from \<open>old\<close> to \<open>new\<close> (daylight saving time ends or starts). The
  local times that come twice, or not at all, are read with the offset \<open>old\<close>.
\<close>

definition fixed_zone :: "int \<Rightarrow> zone" where
  "fixed_zone tz = \<lparr>utc_offset = (\<lambda>t. tz), local_offset = (\<lambda>l. tz)\<rparr>"




text \<open>The inputs of the concrete cases below.\<close>

definition utc :: zone where
  "utc = fixed_zone 0"

definition ten_twenty_five :: "sample list" where
  "ten_twenty_five = [Value (Num 10), Value (Num 20), Value (Num 5)]"

definition t_09_15 :: int where "t_09_15 = 33300000"
definition t_10_45 :: int where "t_10_45 = 38700000"

definition gappy :: "metric list" where
  "gappy =
     [\<lparr>timestamp = Some t_09_15, cpu_percent = Missing, memory_mb = Value (Num 64),
       disk_mb = Missing\<rparr>,
      \<lparr>timestamp = Some t_10_45, cpu_percent = Value (Num 50), memory_mb = Value (Num 64),
       disk_mb = Value (Num 50)\<rparr>]"




section \<open>Properties of the string functions\<close>

lemma split_lines_not_Nil: "split_lines s \<noteq> []"
  by (induction s) (auto split: list.splits)

lemma split_lines_append_newline:
  "split_lines (a @ newline # b) = split_lines a @ split_lines b"
  by (induction a) (auto split: list.splits simp: split_lines_not_Nil)

lemma split_lines_no_newline: "newline \<notin> set l \<Longrightarrow> split_lines l = [l]"
  by (induction l) auto

lemma split_lines_line:
  "newline \<notin> set l \<Longrightarrow> split_lines (l @ newline # rest) = l # split_lines rest"
  by (simp add: split_lines_append_newline split_lines_no_newline)





section \<open>Properties of the chat stream\<close>

lemma line_event_Nil: "line_event parse [] = None"
  by (simp add: line_event_def)

lemma chunk_events_Nil: "chunk_events parse [] = []"
  by (simp add: chunk_events_def List.map_filter_simps line_event_Nil)

lemma chunk_events_append_newline:
  "chunk_events parse (a @ newline # b) = chunk_events parse a @ chunk_events parse b"
  by (simp add: chunk_events_def split_lines_append_newline List.map_filter_def)

lemma chunk_events_terminated:
  "chunk_events parse (a @ [newline] @ b) = chunk_events parse (a @ [newline]) @ chunk_events parse b"
  using chunk_events_append_newline [of parse a b] chunk_events_append_newline [of parse a "[]"]
  by (simp add: chunk_events_Nil)

text \<open>The loop and the event sequence: the session is the fold of the branches over the events.\<close>

lemma foldl_handle_line:
  "foldl (handle_line parse) st ls =
   foldl (\<lambda>s e. handle_event e s) st (List.map_filter (line_event parse) ls)"
  by (induction ls arbitrary: st)
     (auto simp: handle_line_def List.map_filter_simps split: option.splits)

lemma consume_chunk_events:
  "consume_chunk parse st c = foldl (\<lambda>s e. handle_event e s) st (chunk_events parse c)"
  by (simp add: consume_chunk_def chunk_events_def foldl_handle_line)

lemma consume_events:
  "consume parse st chunks = foldl (\<lambda>s e. handle_event e s) st (stream_events parse chunks)"
  by (induction chunks arbitrary: st)
     (auto simp: consume_def stream_events_def consume_chunk_events)

lemma stream_events_aligned:
  "\<forall>c \<in> set (butlast chunks). c \<noteq> [] \<and> last c = newline \<Longrightarrow>
   stream_events parse chunks = chunk_events parse (concat chunks)"
proof (induction chunks)
  case Nil
  then show ?case by (simp add: stream_events_def chunk_events_Nil)
next
  case (Cons c cs)
  show ?case
  proof (cases "cs = []")
    case True
    then show ?thesis by (simp add: stream_events_def)
  next
    case False
    with Cons.prems have c: "c \<noteq> []" "last c = newline"
      and rest: "\<forall>c \<in> set (butlast cs). c \<noteq> [] \<and> last c = newline"
      by auto
    from c have "c = butlast c @ [newline]"
      by (metis append_butlast_last_id)
    then obtain a where a: "c = a @ [newline]" ..
    have "stream_events parse (c # cs) = chunk_events parse c @ stream_events parse cs"
      by (simp add: stream_events_def)
    also have "\<dots> = chunk_events parse c @ chunk_events parse (concat cs)"
      using Cons.IH [OF rest] by simp
    also have "\<dots> = chunk_events parse (concat (c # cs))"
      using chunk_events_terminated [of parse a "concat cs"] a by simp
    finally show ?thesis .
  qed
qed

lemma events_three_frames:
  assumes "parse a = Some ea" "parse b = Some eb" "parse bad = None"
    and "newline \<notin> set a" "newline \<notin> set bad" "newline \<notin> set b"
    and "pre = [] \<or> last pre = newline"
  shows "chunk_events parse (pre @ frame a @ frame bad @ frame b @ post)
       = chunk_events parse pre @ [ea, eb] @ chunk_events parse post"
proof -
  have nl: "newline \<notin> set ''data: ''" by (simp add: newline_def)
  have one: "chunk_events parse (frame x @ r)
           = (case parse x of None \<Rightarrow> [] | Some e \<Rightarrow> [e]) @ chunk_events parse r"
    if "newline \<notin> set x" for x r
  proof -
    have "split_lines (frame x @ r) = (''data: '' @ x) # split_lines r"
      using split_lines_line [of "''data: '' @ x" r] that nl by (simp add: frame_def)
    then show ?thesis
      by (simp add: chunk_events_def List.map_filter_simps line_event_def split: option.splits)
  qed
  have mid: "chunk_events parse (frame a @ frame bad @ frame b @ post)
           = [ea, eb] @ chunk_events parse post"
    using assms by (simp add: one)
  show ?thesis
  proof (cases "pre = []")
    case True
    then show ?thesis using mid by (simp add: chunk_events_Nil)
  next
    case False
    with assms(7) have "pre = butlast pre @ [newline]"
      by (metis append_butlast_last_id)
    then obtain p where p: "pre = p @ [newline]" ..
    show ?thesis
      using chunk_events_terminated [of parse p "frame a @ frame bad @ frame b @ post"] mid p
      by simp
  qed
qed

text \<open>
  C1, as stated, fails: the loop keeps no buffer between chunks. The frame
  \<^verbatim>\<open>data: {"type":"text","content":"hi"}\<close> delivered in one chunk gives one event; the same
  characters delivered in two chunks, cut after the twentieth character, give none: neither
  piece is a line that starts with \<^verbatim>\<open>data: \<close> and holds a body that parses.
\<close>

theorem chunk_split_inside_frame_counterexample:
  "concat [take 20 hello_frame, drop 20 hello_frame] = hello_frame
   \<and> stream_events parse_frame [hello_frame] = [Event ''text'' (Some ''hi'')]
   \<and> stream_events parse_frame [take 20 hello_frame, drop 20 hello_frame] = []
   \<and> messages (consume parse_frame empty_session [hello_frame])
       = [ChatMsg StreamingMessage ''assistant'' ''hi'']
   \<and> messages (consume parse_frame empty_session [take 20 hello_frame, drop 20 hello_frame]) = []"
  by code_simp

text \<open>
  C1, amended. When every chunk but the last ends with a line feed (chunk boundaries fall
  between frames), the chunks deliver the same events in the same order, and leave the same
  session, as their concatenation delivered in one chunk.
\<close>

theorem chunks_cut_at_line_ends:
  assumes "\<forall>c \<in> set (butlast chunks). c \<noteq> [] \<and> last c = newline"
  shows "stream_events parse chunks = stream_events parse [concat chunks]
       \<and> consume parse st chunks = consume parse st [concat chunks]"
proof -
  have "stream_events parse chunks = chunk_events parse (concat chunks)"
    using assms by (rule stream_events_aligned)
  moreover have "stream_events parse [concat chunks] = chunk_events parse (concat chunks)"
    by (simp add: stream_events_def)
  ultimately show ?thesis by (simp add: consume_events)
qed

theorem chunks_cut_at_line_ends_witness:
  "stream_events parse_frame [hello_frame, done_frame]
     = stream_events parse_frame [concat [hello_frame, done_frame]]
   \<and> consume parse_frame empty_session [hello_frame, done_frame]
     = consume parse_frame empty_session [concat [hello_frame, done_frame]]
   \<and> stream_events parse_frame [hello_frame, done_frame]
     = [Event ''text'' (Some ''hi''), Event ''done'' (Some [])]"
proof -
  have h: "\<forall>c \<in> set (butlast [hello_frame, done_frame]). c \<noteq> [] \<and> last c = newline"
    by (simp add: hello_frame_def frame_def)
  have v: "stream_events parse_frame [hello_frame, done_frame]
         = [Event ''text'' (Some ''hi''), Event ''done'' (Some [])]"
    by code_simp
  show ?thesis
    using chunks_cut_at_line_ends [OF h, of parse_frame empty_session] v by simp
qed

text \<open>
  C6, as stated, fails: a frame whose body does not parse is skipped, but so is each piece of
  a well-formed frame that a chunk boundary cuts, so not every well-formed frame is
  delivered. The stream \<^verbatim>\<open>text\<close> frame, malformed frame, \<^verbatim>\<open>done\<close> frame delivers the
  \<^verbatim>\<open>text\<close> event and the \<^verbatim>\<open>done\<close> event when it arrives in one chunk; when the first chunk
  ends after the twentieth character of the \<^verbatim>\<open>text\<close> frame, only the \<^verbatim>\<open>done\<close> event is
  delivered, and the session ends with no message.
\<close>

theorem frame_cut_before_malformed_counterexample:
  "concat [take 20 hello_frame, drop 20 hello_frame @ broken_frame @ done_frame]
     = hello_frame @ broken_frame @ done_frame
   \<and> stream_events parse_frame [hello_frame @ broken_frame @ done_frame]
     = [Event ''text'' (Some ''hi''), Event ''done'' (Some [])]
   \<and> stream_events parse_frame [take 20 hello_frame, drop 20 hello_frame @ broken_frame @ done_frame]
     = [Event ''done'' (Some [])]
   \<and> messages (consume parse_frame empty_session [hello_frame @ broken_frame @ done_frame])
     = [ChatMsg Persisted ''assistant'' ''hi'']
   \<and> messages (consume parse_frame empty_session
        [take 20 hello_frame, drop 20 hello_frame @ broken_frame @ done_frame]) = []"
  by code_simp

text \<open>
  C6, amended. When every chunk but the last ends with a line feed (chunk boundaries fall
  between frames), a frame whose body fails to parse, between two frames whose bodies parse,
  is skipped: the loop goes on, and the two well-formed frames are delivered in order, with
  nothing between them. The stream may hold any text before (ending at a line end) and after
  the three frames.
\<close>

theorem malformed_frame_skipped:
  assumes "parse a = Some ea" "parse b = Some eb" "parse bad = None"
    and "newline \<notin> set a" "newline \<notin> set bad" "newline \<notin> set b"
    and "pre = [] \<or> last pre = newline"
    and "\<forall>c \<in> set (butlast chunks). c \<noteq> [] \<and> last c = newline"
    and "concat chunks = pre @ frame a @ frame bad @ frame b @ post"
  shows "stream_events parse chunks
           = stream_events parse [pre] @ [ea, eb] @ stream_events parse [post]
       \<and> consume parse st chunks
           = consume parse (handle_event eb (handle_event ea (consume parse st [pre]))) [post]"
proof -
  have ev: "stream_events parse chunks
          = stream_events parse [pre] @ [ea, eb] @ stream_events parse [post]"
    using stream_events_aligned [OF assms(8), of parse] assms(9)
      events_three_frames [OF assms(1-7), of post]
    by (simp add: stream_events_def)
  show ?thesis
    unfolding consume_events ev by simp
qed

theorem malformed_frame_skipped_witness:
  "parse_frame ''{oops'' = None
   \<and> stream_events parse_frame [hello_frame @ broken_frame, done_frame]
     = [Event ''text'' (Some ''hi''), Event ''done'' (Some [])]
   \<and> messages (consume parse_frame empty_session [hello_frame @ broken_frame, done_frame])
     = [ChatMsg Persisted ''assistant'' ''hi'']"
proof -
  have p: "parse_frame (frame_body ''text'' ''hi'') = Some (Event ''text'' (Some ''hi''))"
    "parse_frame (frame_body ''done'' []) = Some (Event ''done'' (Some []))"
    "parse_frame ''{oops'' = None"
    by code_simp+
  have n: "newline \<notin> set (frame_body ''text'' ''hi'')" "newline \<notin> set ''{oops''"
    "newline \<notin> set (frame_body ''done'' [])"
    by code_simp+
  have c: "\<forall>c \<in> set (butlast [hello_frame @ broken_frame, done_frame]). c \<noteq> [] \<and> last c = newline"
    by (simp add: broken_frame_def frame_def)
  have e: "concat [hello_frame @ broken_frame, done_frame]
         = [] @ frame (frame_body ''text'' ''hi'') @ frame ''{oops'' @ frame (frame_body ''done'' []) @ []"
    by (simp add: hello_frame_def broken_frame_def done_frame_def)
  have s: "stream_events parse_frame [[]] = []"
    by (simp add: stream_events_def chunk_events_Nil)
  have m: "messages (handle_event (Event ''done'' (Some []))
             (handle_event (Event ''text'' (Some ''hi'')) empty_session))
         = [ChatMsg Persisted ''assistant'' ''hi'']"
    by code_simp
  have k: "consume parse_frame st [[]] = st" for st
    by (simp add: consume_events s)
  show ?thesis
    using malformed_frame_skipped [OF p n _ c e, of empty_session] p(3) s m k by simp
qed

section \<open>Properties of the pollers\<close>

lemma live_same: "timers q = timers p \<Longrightarrow> live m q = live m p"
  by (simp add: live_def)

lemma timers_ok_same:
  "timers q = timers p \<Longrightarrow> next_timer q = next_timer p \<Longrightarrow> timers_ok q = timers_ok p"
  by (simp add: timers_ok_def)

lemma page_ok_all: "page_ok p \<Longrightarrow> handle_ok m p"
  by (cases m) (simp_all add: page_ok_def)

lemma page_okI: "timers_ok p \<Longrightarrow> (\<And>m. handle_ok m p) \<Longrightarrow> page_ok p"
  by (simp add: page_ok_def)

lemma page_ok_same:
  assumes "page_ok p" "timers q = timers p" "next_timer q = next_timer p"
    and "\<And>m. handle m q = handle m p"
  shows "page_ok q"
proof (rule page_okI)
  show "timers_ok q"
    using assms(1) timers_ok_same [OF assms(2,3)] by (simp add: page_ok_def)
  show "handle_ok m q" for m
    using page_ok_all [OF assms(1), of m] assms(4) [of m] live_same [OF assms(2), of m]
    by (simp add: handle_ok_def split: option.splits)
qed

lemma page_ok_cleared:
  assumes "page_ok p" "handle n p = Some i"
    and "timers q = filter (\<lambda>t. tid t \<noteq> i) (timers p)" "next_timer q = next_timer p"
    and "handle n q = None" "\<And>m. m \<noteq> n \<Longrightarrow> handle m q = handle m p"
  shows "page_ok q"
proof (rule page_okI)
  have ok: "timers_ok p" using assms(1) by (simp add: page_ok_def)
  then show "timers_ok q"
    using assms(3,4) by (auto simp: timers_ok_def distinct_map_filter list_all_iff)
  have lq: "live m q = filter (\<lambda>t. tid t \<noteq> i) (live m p)" for m
    using assms(3) by (auto simp: live_def intro: filter_cong)
  from page_ok_all [OF assms(1), of n] assms(2)
  have i: "map tid (live n p) = [i]" by (simp add: handle_ok_def)
  then obtain t where t: "live n p = [t]" "tid t = i"
    by (cases "live n p") auto
  have "t \<in> set (live n p)" using t(1) by simp
  then have tin: "t \<in> set (timers p)" "owner (callback t) = n"
    by (simp_all add: live_def)
  have inj: "inj_on tid (set (timers p))"
    using ok by (simp add: timers_ok_def distinct_map)
  show "handle_ok m q" for m
  proof (cases "m = n")
    case True
    then show ?thesis using assms(5) t by (simp add: handle_ok_def lq)
  next
    case False
    have "tid x \<noteq> i" if "x \<in> set (live m p)" for x
    proof
      assume "tid x = i"
      moreover from that have "x \<in> set (timers p)" "owner (callback x) = m"
        by (simp_all add: live_def)
      ultimately have "x = t" using inj tin(1) t(2) by (auto dest: inj_onD)
      with \<open>owner (callback x) = m\<close> tin(2) False show False by simp
    qed
    then have "live m q = live m p"
      by (simp add: lq filter_id_conv)
    then show ?thesis
      using page_ok_all [OF assms(1), of m] assms(6) [OF False]
      by (simp add: handle_ok_def split: option.splits)
  qed
qed

lemma page_ok_added:
  assumes "page_ok p" "handle n p = None" "owner f = n"
    and "timers q = timers p @ [\<lparr>tid = next_timer p, callback = f, intervalMs = ms\<rparr>]"
    and "next_timer q = Suc (next_timer p)"
    and "handle n q = Some (next_timer p)" "\<And>m. m \<noteq> n \<Longrightarrow> handle m q = handle m p"
  shows "page_ok q"
proof (rule page_okI)
  have ok: "timers_ok p" using assms(1) by (simp add: page_ok_def)
  then show "timers_ok q"
    using assms(4,5) by (auto simp: timers_ok_def list_all_iff less_Suc_eq)
  have lq: "live m q = live m p @ (if m = n then [\<lparr>tid = next_timer p, callback = f, intervalMs = ms\<rparr>] else [])" for m
    using assms(3,4) by (auto simp: live_def)
  show "handle_ok m q" for m
  proof (cases "m = n")
    case True
    moreover have "live n p = []"
      using page_ok_all [OF assms(1), of n] assms(2) by (simp add: handle_ok_def)
    moreover have "0 < next_timer p" using ok by (simp add: timers_ok_def)
    ultimately show ?thesis using assms(6) by (simp add: handle_ok_def lq)
  next
    case False
    then show ?thesis
      using page_ok_all [OF assms(1), of m] assms(7) [OF False]
      by (simp add: handle_ok_def lq split: option.splits)
  qed
qed

lemma handle_Some_pos: "page_ok p \<Longrightarrow> handle n p = Some i \<Longrightarrow> i \<noteq> 0"
  using page_ok_all [of p n] by (simp add: handle_ok_def)

lemma stopLogsInterval_ok:
  assumes "page_ok p"
  shows "page_ok (stopLogsInterval p)"
proof (cases "logsInterval p")
  case None
  then show ?thesis using assms by (simp add: stopLogsInterval_def truthy_handle_def)
next
  case (Some i)
  then have h: "handle ServiceLogs p = Some i" by simp
  have st: "stopLogsInterval p = (clearInterval i p)\<lparr>logsInterval := None\<rparr>"
    using Some handle_Some_pos [OF assms h] by (simp add: stopLogsInterval_def truthy_handle_def)
  show ?thesis
  proof (rule page_ok_cleared [OF assms h])
    show "handle m (stopLogsInterval p) = handle m p" if "m \<noteq> ServiceLogs" for m
      using that by (cases m) (simp_all add: st clearInterval_def)
  qed (simp_all add: st clearInterval_def)
qed

lemma stopLogsInterval_None: "page_ok p \<Longrightarrow> logsInterval (stopLogsInterval p) = None"
  using handle_Some_pos [of p ServiceLogs]
  by (cases "logsInterval p") (auto simp: stopLogsInterval_def truthy_handle_def)

lemma startLogsInterval_ok:
  assumes "page_ok p"
  shows "page_ok (startLogsInterval p)"
proof (cases "logs_live (stopLogsInterval p)")
  case False
  then show ?thesis using stopLogsInterval_ok [OF assms] by (simp add: startLogsInterval_def)
next
  case True
  let ?p1 = "stopLogsInterval p"
  have st: "startLogsInterval p = (setInterval RefreshServiceLogs 1000 ?p1)\<lparr>logsInterval := Some (next_timer ?p1)\<rparr>"
    using True by (simp add: startLogsInterval_def Let_def)
  have h: "handle ServiceLogs ?p1 = None"
    using stopLogsInterval_None [OF assms] by simp
  show ?thesis
  proof (rule page_ok_added [OF stopLogsInterval_ok [OF assms] h, of RefreshServiceLogs _ 1000])
    show "handle m (startLogsInterval p) = handle m ?p1" if "m \<noteq> ServiceLogs" for m
      using that by (cases m) (simp_all add: st setInterval_def)
  qed (simp_all add: st setInterval_def)
qed

lemma stopSupervisorLogsInterval_ok:
  assumes "page_ok p"
  shows "page_ok (stopSupervisorLogsInterval p)"
proof (cases "supervisorLogsInterval p")
  case None
  then show ?thesis using assms by (simp add: stopSupervisorLogsInterval_def truthy_handle_def)
next
  case (Some i)
  then have h: "handle SupervisorLogs p = Some i" by simp
  have st: "stopSupervisorLogsInterval p = (clearInterval i p)\<lparr>supervisorLogsInterval := None\<rparr>"
    using Some handle_Some_pos [OF assms h]
    by (simp add: stopSupervisorLogsInterval_def truthy_handle_def)
  show ?thesis
  proof (rule page_ok_cleared [OF assms h])
    show "handle m (stopSupervisorLogsInterval p) = handle m p" if "m \<noteq> SupervisorLogs" for m
      using that by (cases m) (simp_all add: st clearInterval_def)
  qed (simp_all add: st clearInterval_def)
qed

lemma stopSupervisorLogsInterval_None:
  "page_ok p \<Longrightarrow> supervisorLogsInterval (stopSupervisorLogsInterval p) = None"
  using handle_Some_pos [of p SupervisorLogs]
  by (cases "supervisorLogsInterval p") (auto simp: stopSupervisorLogsInterval_def truthy_handle_def)

lemma startSupervisorLogsInterval_ok:
  assumes "page_ok p"
  shows "page_ok (startSupervisorLogsInterval p)"
proof (cases "supervisor_logs_live (stopSupervisorLogsInterval p)")
  case False
  then show ?thesis
    using stopSupervisorLogsInterval_ok [OF assms] by (simp add: startSupervisorLogsInterval_def)
next
  case True
  let ?p1 = "stopSupervisorLogsInterval p"
  have st: "startSupervisorLogsInterval p
          = (setInterval LoadSupervisorLogs 1000 ?p1)\<lparr>supervisorLogsInterval := Some (next_timer ?p1)\<rparr>"
    using True by (simp add: startSupervisorLogsInterval_def Let_def)
  have h: "handle SupervisorLogs ?p1 = None"
    using stopSupervisorLogsInterval_None [OF assms] by simp
  show ?thesis
  proof (rule page_ok_added [OF stopSupervisorLogsInterval_ok [OF assms] h, of LoadSupervisorLogs _ 1000])
    show "handle m (startSupervisorLogsInterval p) = handle m ?p1" if "m \<noteq> SupervisorLogs" for m
      using that by (cases m) (simp_all add: st setInterval_def)
  qed (simp_all add: st setInterval_def)
qed

lemma stopSecurityPoll_ok:
  assumes "page_ok p"
  shows "page_ok (stopSecurityPoll p)"
proof (cases "securityPollInterval p")
  case None
  then show ?thesis using assms by (simp add: stopSecurityPoll_def truthy_handle_def)
next
  case (Some i)
  then have h: "handle SecurityScan p = Some i" by simp
  have st: "stopSecurityPoll p = (clearInterval i p)\<lparr>securityPollInterval := None\<rparr>"
    using Some handle_Some_pos [OF assms h] by (simp add: stopSecurityPoll_def truthy_handle_def)
  show ?thesis
  proof (rule page_ok_cleared [OF assms h])
    show "handle m (stopSecurityPoll p) = handle m p" if "m \<noteq> SecurityScan" for m
      using that by (cases m) (simp_all add: st clearInterval_def)
  qed (simp_all add: st clearInterval_def)
qed

lemma stopSecurityPoll_None: "page_ok p \<Longrightarrow> securityPollInterval (stopSecurityPoll p) = None"
  using handle_Some_pos [of p SecurityScan]
  by (cases "securityPollInterval p") (auto simp: stopSecurityPoll_def truthy_handle_def)

lemma startSecurityPoll_ok:
  assumes "page_ok p"
  shows "page_ok (startSecurityPoll name p)"
proof -
  let ?p1 = "stopSecurityPoll p"
  have st: "startSecurityPoll name p
          = (setInterval (SecurityPollTick name) 2000 ?p1)\<lparr>securityPollInterval := Some (next_timer ?p1)\<rparr>"
    by (simp add: startSecurityPoll_def Let_def)
  have h: "handle SecurityScan ?p1 = None"
    using stopSecurityPoll_None [OF assms] by simp
  show ?thesis
  proof (rule page_ok_added [OF stopSecurityPoll_ok [OF assms] h, of "SecurityPollTick name" _ 2000])
    show "handle m (startSecurityPoll name p) = handle m ?p1" if "m \<noteq> SecurityScan" for m
      using that by (cases m) (simp_all add: st setInterval_def)
  qed (simp_all add: st setInterval_def)
qed

lemma page_ok_invoke: "page_ok p \<Longrightarrow> page_ok (invoke f p)"
  by (rule page_ok_same [of p]) (simp_all add: invoke_def, case_tac m, simp_all)

lemma stop_fields [simp]:
  "next_timer (stopLogsInterval p) = next_timer p"
  "next_timer (stopSupervisorLogsInterval p) = next_timer p"
  "next_timer (stopSecurityPoll p) = next_timer p"
  "logs_live (stopLogsInterval p) = logs_live p"
  "supervisor_logs_live (stopSupervisorLogsInterval p) = supervisor_logs_live p"
  "invoked (stopLogsInterval p) = invoked p"
  "invoked (stopSupervisorLogsInterval p) = invoked p"
  "invoked (stopSecurityPoll p) = invoked p"
  "logsUserScrolled (stopLogsInterval p) = logsUserScrolled p"
  "logsUserScrolled (stopSupervisorLogsInterval p) = logsUserScrolled p"
  "logsUserScrolled (stopSecurityPoll p) = logsUserScrolled p"
  "supervisorLogsUserScrolled (stopLogsInterval p) = supervisorLogsUserScrolled p"
  "supervisorLogsUserScrolled (stopSupervisorLogsInterval p) = supervisorLogsUserScrolled p"
  "supervisorLogsUserScrolled (stopSecurityPoll p) = supervisorLogsUserScrolled p"
  by (simp_all add: stopLogsInterval_def stopSupervisorLogsInterval_def stopSecurityPoll_def
      clearInterval_def)

lemma start_fields [simp]:
  "invoked (startLogsInterval p) = invoked p"
  "invoked (startSupervisorLogsInterval p) = invoked p"
  "invoked (startSecurityPoll name p) = invoked p"
  "logsUserScrolled (startLogsInterval p) = logsUserScrolled p"
  "logsUserScrolled (startSupervisorLogsInterval p) = logsUserScrolled p"
  "logsUserScrolled (startSecurityPoll name p) = logsUserScrolled p"
  "supervisorLogsUserScrolled (startLogsInterval p) = supervisorLogsUserScrolled p"
  "supervisorLogsUserScrolled (startSupervisorLogsInterval p) = supervisorLogsUserScrolled p"
  "supervisorLogsUserScrolled (startSecurityPoll name p) = supervisorLogsUserScrolled p"
  "logs_live (startLogsInterval p) = logs_live p"
  "supervisor_logs_live (startSupervisorLogsInterval p) = supervisor_logs_live p"
  by (simp_all add: startLogsInterval_def startSupervisorLogsInterval_def startSecurityPoll_def
      setInterval_def Let_def)

lemma live_stopped:
  assumes "page_ok p"
  shows "live ServiceLogs (stopLogsInterval p) = []"
    and "live SupervisorLogs (stopSupervisorLogsInterval p) = []"
    and "live SecurityScan (stopSecurityPoll p) = []"
  using page_ok_all [OF stopLogsInterval_ok [OF assms], of ServiceLogs]
    page_ok_all [OF stopSupervisorLogsInterval_ok [OF assms], of SupervisorLogs]
    page_ok_all [OF stopSecurityPoll_ok [OF assms], of SecurityScan]
    stopLogsInterval_None [OF assms] stopSupervisorLogsInterval_None [OF assms]
    stopSecurityPoll_None [OF assms]
  by (simp_all add: handle_ok_def)

lemma live_setInterval:
  "live m (setInterval f ms p) =
   live m p @ (if owner f = m then [\<lparr>tid = next_timer p, callback = f, intervalMs = ms\<rparr>] else [])"
  by (simp add: live_def setInterval_def)

lemma live_started:
  assumes "page_ok p"
  shows "live ServiceLogs (startLogsInterval p)
       = (if logs_live p then [\<lparr>tid = next_timer p, callback = RefreshServiceLogs, intervalMs = 1000\<rparr>] else [])"
    and "live SupervisorLogs (startSupervisorLogsInterval p)
       = (if supervisor_logs_live p then [\<lparr>tid = next_timer p, callback = LoadSupervisorLogs, intervalMs = 1000\<rparr>] else [])"
    and "live SecurityScan (startSecurityPoll name p)
       = [\<lparr>tid = next_timer p, callback = SecurityPollTick name, intervalMs = 2000\<rparr>]"
proof -
  have f: "live m (q\<lparr>logsInterval := x\<rparr>) = live m q"
    "live m (q\<lparr>supervisorLogsInterval := x\<rparr>) = live m q"
    "live m (q\<lparr>securityPollInterval := x\<rparr>) = live m q" for m q x
    by (simp_all add: live_def)
  show "live ServiceLogs (startLogsInterval p)
       = (if logs_live p then [\<lparr>tid = next_timer p, callback = RefreshServiceLogs, intervalMs = 1000\<rparr>] else [])"
    using live_stopped(1) [OF assms] by (simp add: startLogsInterval_def Let_def f live_setInterval)
  show "live SupervisorLogs (startSupervisorLogsInterval p)
       = (if supervisor_logs_live p then [\<lparr>tid = next_timer p, callback = LoadSupervisorLogs, intervalMs = 1000\<rparr>] else [])"
    using live_stopped(2) [OF assms]
    by (simp add: startSupervisorLogsInterval_def Let_def f live_setInterval)
  show "live SecurityScan (startSecurityPoll name p)
       = [\<lparr>tid = next_timer p, callback = SecurityPollTick name, intervalMs = 2000\<rparr>]"
    using live_stopped(3) [OF assms] by (simp add: startSecurityPoll_def Let_def f live_setInterval)
qed

lemma page_ok_flags:
  assumes "page_ok p"
  shows "page_ok (p\<lparr>logsUserScrolled := x\<rparr>)" "page_ok (p\<lparr>supervisorLogsUserScrolled := x\<rparr>)"
    "page_ok (p\<lparr>logs_live := x\<rparr>)" "page_ok (p\<lparr>supervisor_logs_live := x\<rparr>)"
    "page_ok (p\<lparr>currentService := y\<rparr>)"
  by (rule page_ok_same [OF assms], simp, simp, case_tac m, simp_all)+

lemma step_ok: "page_ok p \<Longrightarrow> page_ok (step c p)"
proof (cases c)
  case (LogsLiveChange b)
  assume "page_ok p"
  then show ?thesis
    using LogsLiveChange
    by (simp add: logs_live_change_def Let_def page_ok_invoke startLogsInterval_ok
        stopLogsInterval_ok page_ok_flags)
next
  case (SupervisorLogsLiveChange b)
  assume "page_ok p"
  then show ?thesis
    using SupervisorLogsLiveChange
    by (simp add: supervisor_logs_live_change_def Let_def page_ok_invoke
        startSupervisorLogsInterval_ok stopSupervisorLogsInterval_ok page_ok_flags)
next
  case (ShowServiceLogs name)
  assume ok: "page_ok p"
  have "page_ok (p\<lparr>currentService := Some name\<rparr>\<lparr>logsUserScrolled := False\<rparr>\<lparr>logs_live := True\<rparr>)"
    by (intro page_ok_flags ok)
  then show ?thesis
    using ShowServiceLogs by (simp add: showServiceLogs_begin_def page_ok_invoke)
next
  case (SwitchTab tab)
  assume "page_ok p"
  then show ?thesis
    using SwitchTab
    by (simp add: switchTab_def Let_def page_ok_invoke startSupervisorLogsInterval_ok
        stopSupervisorLogsInterval_ok)
next
  case (Fire i)
  assume "page_ok p"
  then show ?thesis
    using Fire by (simp add: fire_def page_ok_invoke split: list.splits)
qed (simp_all add: startLogsInterval_ok stopLogsInterval_ok startSupervisorLogsInterval_ok
      stopSupervisorLogsInterval_ok startSecurityPoll_ok stopSecurityPoll_ok closeLogsModal_def
      logs_content_scroll_def supervisor_logs_scroll_def page_ok_flags)

lemma init_ok: "page_ok (init_page a b)"
  by (simp add: page_ok_def timers_ok_def handle_ok_def live_def init_page_def)

lemma run_snoc: "run (cs @ [c]) p = step c (run cs p)"
  by (simp add: run_def)

lemma run_ok: "page_ok p \<Longrightarrow> page_ok (run cs p)"
  by (induction cs rule: rev_induct) (simp_all add: run_snoc step_ok, simp add: run_def)

lemma live_le_one: "page_ok p \<Longrightarrow> length (live n p) \<le> 1"
  using page_ok_all [of p n] arg_cong [of "map tid (live n p)" _ length]
  by (auto simp: handle_ok_def split: option.splits)

lemma stop_inactive:
  "logsInterval p = None \<Longrightarrow> stopLogsInterval p = p"
  "supervisorLogsInterval p = None \<Longrightarrow> stopSupervisorLogsInterval p = p"
  "securityPollInterval p = None \<Longrightarrow> stopSecurityPoll p = p"
  by (simp_all add: stopLogsInterval_def stopSupervisorLogsInterval_def stopSecurityPoll_def
      truthy_handle_def)

lemma fire_started:
  assumes "page_ok p"
  shows "invoked (fire (next_timer p) (startSecurityPoll name p)) = invoked p @ [SecurityPollTick name]"
proof -
  let ?p1 = "stopSecurityPoll p"
  have ok: "timers_ok ?p1" using stopSecurityPoll_ok [OF assms] by (simp add: page_ok_def)
  then have "filter (\<lambda>t. tid t = next_timer p) (timers ?p1) = []"
    by (auto simp: timers_ok_def list_all_iff filter_empty_conv)
  then show ?thesis
    by (simp add: fire_def startSecurityPoll_def Let_def setInterval_def invoke_def)
qed

lemma stop_handles [simp]:
  "supervisorLogsInterval (stopLogsInterval p) = supervisorLogsInterval p"
  "securityPollInterval (stopLogsInterval p) = securityPollInterval p"
  "logsInterval (stopSupervisorLogsInterval p) = logsInterval p"
  "securityPollInterval (stopSupervisorLogsInterval p) = securityPollInterval p"
  "logsInterval (stopSecurityPoll p) = logsInterval p"
  "supervisorLogsInterval (stopSecurityPoll p) = supervisorLogsInterval p"
  by (simp_all add: stopLogsInterval_def stopSupervisorLogsInterval_def stopSecurityPoll_def
      clearInterval_def)

lemma start_handles [simp]:
  "supervisorLogsInterval (startLogsInterval p) = supervisorLogsInterval p"
  "securityPollInterval (startLogsInterval p) = securityPollInterval p"
  "logsInterval (startSupervisorLogsInterval p) = logsInterval p"
  "securityPollInterval (startSupervisorLogsInterval p) = securityPollInterval p"
  "logsInterval (startSecurityPoll name p) = logsInterval p"
  "supervisorLogsInterval (startSecurityPoll name p) = supervisorLogsInterval p"
  by (simp_all add: startLogsInterval_def startSupervisorLogsInterval_def startSecurityPoll_def
      setInterval_def Let_def)

lemma handle_kept:
  assumes "handle n p = None" "\<not> calls_start c n"
  shows "handle n (step c p) = None"
  using assms
  by (cases c; cases n)
     (simp_all add: stop_inactive logs_live_change_def supervisor_logs_live_change_def
        logs_content_scroll_def supervisor_logs_scroll_def showServiceLogs_begin_def
        closeLogsModal_def switchTab_def fire_def invoke_def Let_def split: list.splits)

lemma handle_kept_run:
  "handle n p = None \<Longrightarrow> \<forall>d \<in> set post. \<not> calls_start d n \<Longrightarrow> handle n (run post p) = None"
  by (induction post rule: rev_induct) (simp_all add: run_snoc handle_kept, simp add: run_def)

lemma handle_stopped:
  assumes "page_ok p" "calls_stop c n"
  shows "handle n (step c p) = None"
proof -
  have f: "page_ok (p\<lparr>logs_live := x\<rparr>)" "page_ok (p\<lparr>supervisor_logs_live := x\<rparr>)" for x
    using assms(1) by (simp_all add: page_ok_flags)
  show ?thesis
    using assms(2) stopLogsInterval_None [OF assms(1)] stopSupervisorLogsInterval_None [OF assms(1)]
      stopSecurityPoll_None [OF assms(1)] stopLogsInterval_None [OF f(1)]
      stopSupervisorLogsInterval_None [OF f(2)]
    by (cases c; cases n)
       (simp_all add: logs_live_change_def supervisor_logs_live_change_def closeLogsModal_def
          switchTab_def Let_def)
qed

lemma run_append: "run (xs @ ys) p = run ys (run xs p)"
  by (simp add: run_def)

lemma handle_None_live: "page_ok p \<Longrightarrow> handle n p = None \<Longrightarrow> live n p = []"
  using page_ok_all [of p n] by (simp add: handle_ok_def)

lemma stopped_stays:
  assumes "calls_stop c n" "\<forall>d \<in> set post. \<not> calls_start d n"
  shows "live n (run (pre @ c # post) (init_page a b)) = []"
proof -
  have ok: "page_ok (run pre (init_page a b))" by (rule run_ok [OF init_ok])
  have "run (pre @ c # post) (init_page a b) = run post (step c (run pre (init_page a b)))"
    by (simp add: run_def)
  moreover have "handle n (run post (step c (run pre (init_page a b)))) = None"
    by (rule handle_kept_run [OF handle_stopped [OF ok assms(1)] assms(2)])
  ultimately show ?thesis
    using handle_None_live [OF run_ok [OF init_ok], of n "pre @ c # post" a b] by simp
qed

lemma never_started:
  assumes "\<forall>d \<in> set cs. \<not> calls_start d n"
  shows "live n (run cs (init_page a b)) = []"
proof -
  have "handle n (init_page a b) = None" by (cases n) (simp_all add: init_page_def)
  then have "handle n (run cs (init_page a b)) = None"
    by (rule handle_kept_run [OF _ assms])
  then show ?thesis by (rule handle_None_live [OF run_ok [OF init_ok]])
qed

text \<open>
  C2, as stated, fails in its last part: a stop followed by a start is an equal number of
  opposite calls on one poller, and leaves that poller's timer scheduled.
\<close>

theorem stop_then_start_counterexample:
  "count_starts SecurityScan [StopSecurityPoll, StartSecurityPoll ''web'']
     = count_stops SecurityScan [StopSecurityPoll, StartSecurityPoll ''web'']
   \<and> live SecurityScan (run [StopSecurityPoll, StartSecurityPoll ''web''] page0)
     = [\<lparr>tid = 1, callback = SecurityPollTick ''web'', intervalMs = 2000\<rparr>]
   \<and> count_starts ServiceLogs [StopLogsInterval, StartLogsInterval]
     = count_stops ServiceLogs [StopLogsInterval, StartLogsInterval]
   \<and> live ServiceLogs (run [StopLogsInterval, StartLogsInterval] page0)
     = [\<lparr>tid = 1, callback = RefreshServiceLogs, intervalMs = 1000\<rparr>]"
  by (simp add: count_starts_def count_stops_def run_def page0_def init_page_def live_def
      stopSecurityPoll_def startSecurityPoll_def stopLogsInterval_def startLogsInterval_def
      truthy_handle_def setInterval_def Let_def)

text \<open>
  C2, amended. On every page a run of calls reaches from the initial page, each poller has
  at most one live timer. It has none when the last step was its stop function, and it still
  has none after any further steps, as long as none of them calls its start function: a step
  that calls the stop function (the function itself, clearing the "live" checkbox, closing
  the logs modal, leaving the logs tab) followed by steps that call no start of this poller
  leaves it without a timer, and so does a run that never calls its start. When the last step
  was its start function it has one timer if its "live" checkbox is checked (the security
  poll has no checkbox) and none otherwise: a start on an active poller replaces the timer.
  A stop on a poller whose handle is null leaves the page as it is.
\<close>

theorem at_most_one_timer_per_poller:
  "length (live n (run cs (init_page a b))) \<le> 1
   \<and> (cs \<noteq> [] \<and> stops (last cs) n \<longrightarrow> live n (run cs (init_page a b)) = [])
   \<and> (calls_stop c n \<and> (\<forall>d \<in> set post. \<not> calls_start d n) \<longrightarrow>
        live n (run (pre @ c # post) (init_page a b)) = [])
   \<and> ((\<forall>d \<in> set cs. \<not> calls_start d n) \<longrightarrow> live n (run cs (init_page a b)) = [])
   \<and> (cs \<noteq> [] \<and> starts (last cs) n \<longrightarrow>
        length (live n (run cs (init_page a b))) = (if gate n (run cs (init_page a b)) then 1 else 0))
   \<and> (logsInterval p = None \<longrightarrow> stopLogsInterval p = p)
   \<and> (supervisorLogsInterval p = None \<longrightarrow> stopSupervisorLogsInterval p = p)
   \<and> (securityPollInterval p = None \<longrightarrow> stopSecurityPoll p = p)"
proof -
  have one: "length (live n (run cs (init_page a b))) \<le> 1"
    by (rule live_le_one [OF run_ok [OF init_ok]])
  have stopped: "live n (run cs (init_page a b)) = []" if "cs \<noteq> []" "stops (last cs) n"
  proof -
    from that(1) obtain cs' c where cs: "cs = cs' @ [c]"
      by (metis append_butlast_last_id)
    have ok: "page_ok (run cs' (init_page a b))" by (rule run_ok [OF init_ok])
    from that(2) cs have "stops c n" by simp
    then show ?thesis
      using live_stopped [OF ok] by (cases c; cases n) (simp_all add: cs run_snoc)
  qed
  have started: "length (live n (run cs (init_page a b))) = (if gate n (run cs (init_page a b)) then 1 else 0)"
    if "cs \<noteq> []" "starts (last cs) n"
  proof -
    from that(1) obtain cs' c where cs: "cs = cs' @ [c]"
      by (metis append_butlast_last_id)
    have ok: "page_ok (run cs' (init_page a b))" by (rule run_ok [OF init_ok])
    from that(2) cs have "starts c n" by simp
    then show ?thesis
      using live_started [OF ok] by (cases c; cases n) (simp_all add: cs run_snoc)
  qed
  have stays: "live n (run (pre @ c # post) (init_page a b)) = []"
    if "calls_stop c n" "\<forall>d \<in> set post. \<not> calls_start d n"
    using that by (rule stopped_stays)
  have never: "live n (run cs (init_page a b)) = []" if "\<forall>d \<in> set cs. \<not> calls_start d n"
    using that by (rule never_started)
  show ?thesis
    using one stopped started stays never by (simp add: stop_inactive)
qed

theorem at_most_one_timer_per_poller_witness:
  "length (live ServiceLogs (run [StartLogsInterval, StartLogsInterval, StopLogsInterval] page0)) \<le> 1
   \<and> live ServiceLogs (run [StartLogsInterval, StartLogsInterval, StopLogsInterval] page0) = []
   \<and> live ServiceLogs
       (run [StartLogsInterval, CloseLogsModal, StartSecurityPoll ''web'', SwitchTab ''logs'', Fire 2]
          page0) = []
   \<and> live SecurityScan (run [StartLogsInterval, SwitchTab ''logs'', LogsLiveChange True] page0) = []
   \<and> length (live ServiceLogs (run [StartLogsInterval, StartLogsInterval] page0)) = 1
   \<and> stopLogsInterval page0 = page0"
proof -
  have g: "gate ServiceLogs (run [StartLogsInterval, StartLogsInterval] (init_page True True))"
    by (simp add: run_def)  (simp add: init_page_def)
  have h: "logsInterval page0 = None" by (simp add: page0_def init_page_def)
  show ?thesis
    using at_most_one_timer_per_poller
        [where n = ServiceLogs and cs = "[StartLogsInterval, StartLogsInterval, StopLogsInterval]"
           and a = True and b = True and p = page0 and pre = "[StartLogsInterval]"
           and c = CloseLogsModal
           and post = "[StartSecurityPoll ''web'', SwitchTab ''logs'', Fire 2]"]
      at_most_one_timer_per_poller
        [where n = SecurityScan and cs = "[StartLogsInterval, SwitchTab ''logs'', LogsLiveChange True]"
           and a = True and b = True and p = page0 and pre = "[]" and c = StopSecurityPoll
           and post = "[]"]
      at_most_one_timer_per_poller
        [where n = ServiceLogs and cs = "[StartLogsInterval, StartLogsInterval]"
           and a = True and b = True and p = page0 and pre = "[]" and c = StopLogsInterval
           and post = "[]"] g h
    by (simp add: page0_def)
qed

text \<open>
  C3, as stated, fails: no start function calls the tick function. After a start on the
  initial page no tick has been invoked; and with the "live" checkbox cleared the service
  logs poller's start schedules nothing.
\<close>

theorem start_invokes_no_tick_counterexample:
  "invoked (startSecurityPoll ''web'' page0) = []
   \<and> invoked (startLogsInterval page0) = []
   \<and> invoked (startSupervisorLogsInterval page0) = []
   \<and> timers (startLogsInterval (init_page False True)) = []"
  by (simp add: page0_def init_page_def stopLogsInterval_def startLogsInterval_def
      stopSupervisorLogsInterval_def startSupervisorLogsInterval_def stopSecurityPoll_def
      startSecurityPoll_def truthy_handle_def setInterval_def Let_def)

text \<open>
  C3, amended. On every reachable page a start function invokes no tick function; it leaves
  the poller with exactly one timer, of period 1000 ms for the two log pollers (only when
  their "live" checkbox is checked) and 2000 ms for the security poll, and that timer, when
  the browser fires it, invokes the tick function. A stop function leaves the poller with no
  timer. The callers of the log pollers' start functions (the checkbox listeners, the
  opening of the logs modal, the switch to the logs tab) call the tick function themselves.
\<close>

theorem start_schedules_stop_cancels:
  assumes "p = run cs (init_page a b)"
  shows "invoked (startLogsInterval p) = invoked p
       \<and> invoked (startSupervisorLogsInterval p) = invoked p
       \<and> invoked (startSecurityPoll name p) = invoked p
       \<and> live ServiceLogs (startLogsInterval p)
           = (if logs_live p
              then [\<lparr>tid = next_timer p, callback = RefreshServiceLogs, intervalMs = 1000\<rparr>] else [])
       \<and> live SupervisorLogs (startSupervisorLogsInterval p)
           = (if supervisor_logs_live p
              then [\<lparr>tid = next_timer p, callback = LoadSupervisorLogs, intervalMs = 1000\<rparr>] else [])
       \<and> live SecurityScan (startSecurityPoll name p)
           = [\<lparr>tid = next_timer p, callback = SecurityPollTick name, intervalMs = 2000\<rparr>]
       \<and> invoked (fire (next_timer p) (startSecurityPoll name p)) = invoked p @ [SecurityPollTick name]
       \<and> live ServiceLogs (stopLogsInterval p) = []
       \<and> live SupervisorLogs (stopSupervisorLogsInterval p) = []
       \<and> live SecurityScan (stopSecurityPoll p) = []
       \<and> invoked (logs_live_change True p) = invoked p @ [RefreshServiceLogs]
       \<and> invoked (showServiceLogs_begin name p) = invoked p @ [RefreshServiceLogs]
       \<and> invoked (supervisor_logs_live_change True p) = invoked p @ [LoadSupervisorLogs]
       \<and> invoked (switchTab ''logs'' p) = invoked p @ [LoadSupervisorLogs]"
proof -
  have ok: "page_ok p" unfolding assms by (rule run_ok [OF init_ok])
  have i: "invoked (logs_live_change True p) = invoked p @ [RefreshServiceLogs]"
    "invoked (showServiceLogs_begin name p) = invoked p @ [RefreshServiceLogs]"
    "invoked (supervisor_logs_live_change True p) = invoked p @ [LoadSupervisorLogs]"
    "invoked (switchTab ''logs'' p) = invoked p @ [LoadSupervisorLogs]"
    by (simp_all add: logs_live_change_def showServiceLogs_begin_def
        supervisor_logs_live_change_def switchTab_def invoke_def Let_def)
  show ?thesis
    using live_started [OF ok] live_stopped [OF ok] fire_started [OF ok] i by simp
qed

theorem start_schedules_stop_cancels_witness:
  "invoked (startSecurityPoll ''web'' (run [StartLogsInterval] page0)) = []
   \<and> live SecurityScan (startSecurityPoll ''web'' (run [StartLogsInterval] page0))
     = [\<lparr>tid = 2, callback = SecurityPollTick ''web'', intervalMs = 2000\<rparr>]
   \<and> live ServiceLogs (stopLogsInterval (run [StartLogsInterval] page0)) = []"
proof -
  have h: "run [StartLogsInterval] page0 = run [StartLogsInterval] (init_page True True)"
    by (simp add: page0_def)
  have n: "next_timer (run [StartLogsInterval] page0) = 2" "invoked (run [StartLogsInterval] page0) = []"
    by (simp_all add: run_def page0_def init_page_def startLogsInterval_def Let_def
        setInterval_def)
  show ?thesis
    using start_schedules_stop_cancels [OF h, of "''web''"] n by simp
qed

text \<open>
  C5, as stated, fails: the scroll listener writes the flag on every scroll event, so a
  scroll back to the end turns following on again with no change of the "live" checkbox;
  and a position exactly 50 pixels from the end already turns following off.
\<close>

theorem follow_resumes_on_scroll_counterexample:
  "logsUserScrolled (run [LogsContentScroll reading] page0)
   \<and> \<not> logsUserScrolled (run [LogsContentScroll reading, LogsContentScroll at_end] page0)
   \<and> scrollHeight fifty_from_end - scrollTop fifty_from_end - clientHeight fifty_from_end = 50
   \<and> logsUserScrolled (run [LogsContentScroll fifty_from_end] page0)"
  by (simp add: run_def logs_content_scroll_def atBottom_def reading_def at_end_def
      fifty_from_end_def)

text \<open>
  C5, amended. Following is on at the start (both flags are clear). A scroll event sets the
  flag of its element to whether the position is 50 pixels or more from the edge (the end
  for service logs, the start for supervisor logs), so it turns following off at 50 pixels or
  more and on again below 50. Checking "live" clears the flag, clearing "live" keeps it, and
  opening the service logs modal clears the service logs flag. No other step changes a flag.
\<close>

theorem follow_flag_transitions:
  "\<not> logsUserScrolled (init_page a b) \<and> \<not> supervisorLogsUserScrolled (init_page a b)
   \<and> logsUserScrolled (step c p)
       = (case c of
            LogsContentScroll el \<Rightarrow> 50 \<le> scrollHeight el - scrollTop el - clientHeight el
          | LogsLiveChange checked \<Rightarrow> \<not> checked \<and> logsUserScrolled p
          | ShowServiceLogs name \<Rightarrow> False
          | _ \<Rightarrow> logsUserScrolled p)
   \<and> supervisorLogsUserScrolled (step c p)
       = (case c of
            SupervisorLogsScroll el \<Rightarrow> 50 \<le> scrollTop el
          | SupervisorLogsLiveChange checked \<Rightarrow> \<not> checked \<and> supervisorLogsUserScrolled p
          | _ \<Rightarrow> supervisorLogsUserScrolled p)"
proof -
  have i: "\<not> logsUserScrolled (init_page a b) \<and> \<not> supervisorLogsUserScrolled (init_page a b)"
    by (simp add: init_page_def)
  have l: "logsUserScrolled (step c p)
       = (case c of
            LogsContentScroll el \<Rightarrow> 50 \<le> scrollHeight el - scrollTop el - clientHeight el
          | LogsLiveChange checked \<Rightarrow> \<not> checked \<and> logsUserScrolled p
          | ShowServiceLogs name \<Rightarrow> False
          | _ \<Rightarrow> logsUserScrolled p)"
    by (cases c)
       (auto simp: logs_content_scroll_def atBottom_def logs_live_change_def Let_def invoke_def
          supervisor_logs_live_change_def supervisor_logs_scroll_def showServiceLogs_begin_def
          closeLogsModal_def switchTab_def fire_def split: list.splits)
  have s: "supervisorLogsUserScrolled (step c p)
       = (case c of
            SupervisorLogsScroll el \<Rightarrow> 50 \<le> scrollTop el
          | SupervisorLogsLiveChange checked \<Rightarrow> \<not> checked \<and> supervisorLogsUserScrolled p
          | _ \<Rightarrow> supervisorLogsUserScrolled p)"
    by (cases c)
       (auto simp: logs_content_scroll_def atTop_def logs_live_change_def Let_def invoke_def
          supervisor_logs_live_change_def supervisor_logs_scroll_def showServiceLogs_begin_def
          closeLogsModal_def switchTab_def fire_def split: list.splits)
  show ?thesis using i l s by simp
qed

section \<open>Properties of the log viewers\<close>

text \<open>
  C4, as stated, fails in its last part: when the user has scrolled away and the viewport
  was not at its edge, the scroll offset is left as it is. The content grows from 1000 to
  2000 pixels and the offset stays 300, in both viewers.
\<close>

theorem raw_offset_kept_counterexample:
  "scrollHeight reading = 1000 \<and> scrollTop reading = 300
   \<and> scrollHeight (refreshServiceLogs (Some ''web'') True (Loaded 2000) reading) = 2000
   \<and> scrollTop (refreshServiceLogs (Some ''web'') True (Loaded 2000) reading) = 300
   \<and> scrollHeight (loadSupervisorLogs reading True (Loaded 2000) reading) = 2000
   \<and> scrollTop (loadSupervisorLogs reading True (Loaded 2000) reading) = 300"
  by (simp add: refreshServiceLogs_def loadSupervisorLogs_def set_content_def max_scroll_def
      reading_def Let_def)

text \<open>
  C4, amended. A render that loads entries reads whether the viewport is at its edge before
  the content is replaced (the supervisor logs viewer reads it when the request is sent).
  After the replacement, when following is on or that reading was "at the edge", the scroll
  offset is the edge of the new content: the bottom for service logs, the top for supervisor
  logs. Otherwise the offset is the one before the render, clamped to the range of the new
  content; no equivalent offset is computed.
\<close>

theorem render_scroll_contract:
  assumes "0 \<le> clientHeight v"
  shows "scrollHeight (refreshServiceLogs (Some (c # name)) userScrolled (Loaded h) v)
           = max h (clientHeight v)
       \<and> scrollTop (refreshServiceLogs (Some (c # name)) userScrolled (Loaded h) v)
           = (if \<not> userScrolled \<or> atBottom v then max h (clientHeight v) - clientHeight v
              else min (scrollTop v) (max h (clientHeight v) - clientHeight v))
       \<and> scrollHeight (loadSupervisorLogs at_call userScrolled (Loaded h) v)
           = max h (clientHeight v)
       \<and> scrollTop (loadSupervisorLogs at_call userScrolled (Loaded h) v)
           = (if \<not> userScrolled \<or> atTop at_call then 0
              else min (scrollTop v) (max h (clientHeight v) - clientHeight v))"
  using assms
  by (auto simp: refreshServiceLogs_def loadSupervisorLogs_def set_content_def set_scrollTop_def
      max_scroll_def atBottom_def atTop_def Let_def)

theorem render_scroll_contract_witness:
  "0 \<le> clientHeight at_end
   \<and> scrollTop (refreshServiceLogs (Some ''web'') False (Loaded 1600) reading) = 1400
   \<and> scrollTop (refreshServiceLogs (Some ''web'') True (Loaded 1600) at_end) = 1400
   \<and> scrollTop (refreshServiceLogs (Some ''web'') True (Loaded 1600) reading) = 300
   \<and> scrollTop (loadSupervisorLogs reading False (Loaded 1600) reading) = 0
   \<and> scrollTop (loadSupervisorLogs reading True (Loaded 1600) reading) = 300"
proof -
  have h: "0 \<le> clientHeight at_end" "0 \<le> clientHeight reading"
    by (simp_all add: at_end_def reading_def)
  have e: "atBottom at_end" "\<not> atBottom reading" "\<not> atTop reading"
    "clientHeight reading = 200" "clientHeight at_end = 200" "scrollTop reading = 300"
    by (simp_all add: atBottom_def atTop_def at_end_def reading_def)
  show ?thesis
    using h(1) render_scroll_contract [OF h(2), of "CHR ''w''" "''eb''" False 1600 reading]
      render_scroll_contract [OF h(1), of "CHR ''w''" "''eb''" True 1600 reading]
      render_scroll_contract [OF h(2), of "CHR ''w''" "''eb''" True 1600 reading] e
    by simp
qed

section \<open>Properties of the number model\<close>

lemma pow2_powi: "pow2 e = 2 powi e"
  by (simp add: pow2_def power_int_def field_simps)

lemma pow2_pos: "0 < pow2 e"
  by (simp add: pow2_powi)

lemma pow2_add: "pow2 (a + b) = pow2 a * pow2 b"
  by (simp add: pow2_powi power_int_add)

lemma pow2_mono: "a \<le> b \<Longrightarrow> pow2 a \<le> pow2 b"
  by (simp add: pow2_powi power_int_increasing)

lemma pow2_less: "pow2 a < pow2 b \<Longrightarrow> a < b"
  using pow2_mono [of b a] by (cases "a < b") auto


lemma bit_length_nonneg: "0 \<le> bit_length p"
proof (induction p rule: bit_length.induct)
  case (1 p)
  then show ?case by (cases "p \<le> 0") (simp_all add: bit_length.simps [of p])
qed

lemma bit_length_bounds_int:
  "0 < p \<Longrightarrow> (2::int) ^ nat (bit_length p) \<le> 2 * p \<and> p < 2 ^ nat (bit_length p)"
proof (induction p rule: bit_length.induct)
  case (1 p)
  define q where "q = p div 2"
  define n where "n = nat (bit_length q)"
  have bl: "bit_length p = 1 + bit_length q"
    using "1.prems" by (simp add: bit_length.simps [of p] q_def)
  have nn: "nat (bit_length p) = Suc n"
    using bit_length_nonneg [of q] by (simp add: bl n_def nat_add_distrib)
  show ?case
  proof (cases "q = 0")
    case True
    then have "p = 1" using "1.prems" by (simp add: q_def)
    moreover have "n = 0" using True by (simp add: n_def bit_length.simps [of 0])
    ultimately show ?thesis unfolding nn by simp
  next
    case False
    then have qpos: "0 < q" using "1.prems" by (simp add: q_def)
    have ih: "2 ^ n \<le> 2 * q" "q < 2 ^ n"
      using "1.IH" [folded q_def, OF _ qpos] "1.prems" by (simp_all add: n_def)
    have pq: "2 * q \<le> p" "p < 2 * q + 2" unfolding q_def by presburger+
    from ih(2) have "q + 1 \<le> 2 ^ n" by simp
    then show ?thesis using ih(1) pq by (simp add: nn)
  qed
qed

lemma bit_length_bounds:
  assumes "0 < p"
  shows "pow2 (bit_length p) \<le> 2 * of_int p" "of_int p < pow2 (bit_length p)"
proof -
  let ?n = "nat (bit_length p)"
  have e: "pow2 (bit_length p) = of_int (2 ^ ?n)"
    using bit_length_nonneg [of p] by (simp add: pow2_def)
  from bit_length_bounds_int [OF assms]
  have "(of_int (2 ^ ?n) :: rat) \<le> of_int (2 * p)" "(of_int p :: rat) < of_int (2 ^ ?n)"
    by (simp_all only: of_int_le_iff of_int_less_iff)
  then show "pow2 (bit_length p) \<le> 2 * of_int p" "of_int p < pow2 (bit_length p)"
    by (simp_all add: e)
qed

lemma ilog2_bounds:
  assumes "0 < x"
  shows "pow2 (ilog2 x) \<le> x" "x < pow2 (ilog2 x + 1)"
proof -
  obtain p q where pq: "quotient_of x = (p, q)" by (cases "quotient_of x")
  then have q: "0 < q" and x: "x = of_int p / of_int q"
    by (simp_all add: quotient_of_denom_pos quotient_of_div)
  from assms x q have p: "0 < p" by (simp add: zero_less_divide_iff)
  let ?bp = "bit_length p" and ?bq = "bit_length q"
  let ?k = "?bp - ?bq"
  have P: "pow2 ?bp \<le> 2 * of_int p" "of_int p < pow2 ?bp"
    by (rule bit_length_bounds [OF p])+
  have Q: "pow2 ?bq \<le> 2 * of_int q" "of_int q < pow2 ?bq"
    by (rule bit_length_bounds [OF q])+
  have k: "pow2 ?bp = pow2 ?k * pow2 ?bq"
    using pow2_add [of ?k ?bq] by simp
  have qpos: "(0::rat) < of_int q" using q by simp
  have up: "x < pow2 (?k + 1)"
  proof -
    have "of_int p < pow2 ?k * pow2 (?bq)" using P(2) k by simp
    also have "\<dots> \<le> pow2 ?k * (2 * of_int q)"
      using Q(1) pow2_pos [of ?k] by (simp add: mult_left_mono)
    finally have "of_int p < (pow2 ?k * 2) * of_int q" by (simp add: mult.assoc)
    then have "of_int p / of_int q < pow2 ?k * 2" using qpos by (simp add: pos_divide_less_eq)
    then show ?thesis using pow2_add [of ?k 1] x by (simp add: pow2_def)
  qed
  have low: "pow2 (?k - 1) \<le> x"
  proof -
    have "pow2 ?k * of_int q \<le> pow2 ?k * pow2 (?bq)"
      using Q(2) pow2_pos [of ?k] by (simp add: mult_left_mono)
    also have "\<dots> \<le> 2 * of_int p" using P(1) k by simp
    finally have "(pow2 ?k / 2) * of_int q \<le> of_int p" by simp
    then have "pow2 ?k / 2 \<le> of_int p / of_int q" using qpos by (simp add: pos_le_divide_eq)
    then have h: "pow2 ?k / 2 \<le> x" by (simp only: x)
    have "pow2 (?k - 1) * 2 = pow2 ?k"
      using pow2_add [of "?k - 1" 1] by (simp add: pow2_def)
    then have "pow2 (?k - 1) = pow2 ?k / 2" by simp
    with h show ?thesis by (simp only:)
  qed
  have il: "ilog2 x = (if pow2 ?k \<le> x then ?k else ?k - 1)"
    by (simp add: ilog2_def pq Let_def)
  show "pow2 (ilog2 x) \<le> x" using il low by auto
  show "x < pow2 (ilog2 x + 1)" using il up by (auto simp: not_le)
qed

lemma ilog2_unique:
  assumes "pow2 k \<le> x" "x < pow2 (k + 1)"
  shows "ilog2 x = k"
proof -
  have x: "0 < x" using assms(1) pow2_pos [of k] by simp
  from ilog2_bounds [OF x] assms
  have "pow2 (ilog2 x) < pow2 (k + 1)" "pow2 k < pow2 (ilog2 x + 1)" by simp_all
  then have "ilog2 x < k + 1" "k < ilog2 x + 1" by (auto dest: pow2_less)
  then show ?thesis by simp
qed

lemma round_even_bounds: "\<bar>of_int (round_even y) - y\<bar> \<le> 1 / 2"
proof -
  have "of_int \<lfloor>y\<rfloor> \<le> y" "y < of_int \<lfloor>y\<rfloor> + 1" by linarith+
  then show ?thesis by (auto simp: round_even_def Let_def abs_le_iff)
qed

lemma round_even_int [simp]: "round_even (of_int n) = n"
  by (simp add: round_even_def Let_def)

lemma round_even_mono_low: "of_int n \<le> y \<Longrightarrow> n \<le> round_even y"
proof -
  assume "of_int n \<le> y"
  then have "n \<le> \<lfloor>y\<rfloor>" by (simp add: le_floor_iff)
  then show ?thesis by (auto simp: round_even_def Let_def)
qed

lemma round_even_mono_high: "y \<le> of_int n \<Longrightarrow> round_even y \<le> n"
proof -
  assume y: "y \<le> of_int n"
  show ?thesis
  proof (cases "y = of_int n")
    case True
    then show ?thesis by simp
  next
    case False
    with y have "y < of_int n" by simp
    then have "\<lfloor>y\<rfloor> < n" by (simp add: floor_less_iff)
    then show ?thesis by (auto simp: round_even_def Let_def)
  qed
qed

text \<open>The scaled magnitude, and what \<open>fl\<close> is in terms of it.\<close>

lemma fl_scaled:
  assumes "x \<noteq> 0"
  defines "e \<equiv> ilog2 \<bar>x\<bar> - 52"
  shows "fl x = sgn x * of_int (round_even (\<bar>x\<bar> / pow2 e)) * pow2 e"
    and "2 ^ 52 \<le> \<bar>x\<bar> / pow2 e" and "\<bar>x\<bar> / pow2 e < 2 ^ 53"
proof -
  show "fl x = sgn x * of_int (round_even (\<bar>x\<bar> / pow2 e)) * pow2 e"
    using assms by (simp add: fl_def Let_def)
  have ax: "0 < \<bar>x\<bar>" using assms(1) by simp
  have c: "pow2 52 = 2 ^ 52" "pow2 53 = 2 ^ 53" by (simp_all add: pow2_def)
  have d: "e + 52 = ilog2 \<bar>x\<bar>" "e + 53 = ilog2 \<bar>x\<bar> + 1" by (simp_all add: e_def)
  have a: "pow2 (ilog2 \<bar>x\<bar>) = pow2 e * 2 ^ 52"
    using pow2_add [of e 52] by (simp only: c d)
  have b: "pow2 (ilog2 \<bar>x\<bar> + 1) = pow2 e * 2 ^ 53"
    using pow2_add [of e 53] by (simp only: c d)
  from ilog2_bounds [OF ax] a b
  have "pow2 e * 2 ^ 52 \<le> \<bar>x\<bar>" "\<bar>x\<bar> < pow2 e * 2 ^ 53" by simp_all
  then show "2 ^ 52 \<le> \<bar>x\<bar> / pow2 e" "\<bar>x\<bar> / pow2 e < 2 ^ 53"
    using pow2_pos [of e] by (simp_all add: pos_le_divide_eq pos_divide_less_eq mult.commute)
qed

lemma fl_eq_0_iff [simp]: "fl x = 0 \<longleftrightarrow> x = 0"
proof
  assume z: "fl x = 0"
  show "x = 0"
  proof (rule ccontr)
    assume nz: "x \<noteq> 0"
    let ?e = "ilog2 \<bar>x\<bar> - 52"
    have "(2::int) ^ 52 \<le> round_even (\<bar>x\<bar> / pow2 ?e)"
      using fl_scaled(2) [OF nz] by (intro round_even_mono_low) simp
    then have "0 < round_even (\<bar>x\<bar> / pow2 ?e)" by simp
    then show False
      using z fl_scaled(1) [OF nz] nz pow2_pos [of ?e] by (simp add: sgn_eq_0_iff)
  qed
qed (simp add: fl_def)

lemma fl_error: "\<bar>fl x - x\<bar> \<le> \<bar>x\<bar> / 2 ^ 53"
proof (cases "x = 0")
  case True
  then show ?thesis by (simp add: fl_def)
next
  case nz: False
  let ?e = "ilog2 \<bar>x\<bar> - 52"
  let ?y = "\<bar>x\<bar> / pow2 ?e"
  have pe: "0 < pow2 ?e" by (rule pow2_pos)
  have xy: "\<bar>x\<bar> = ?y * pow2 ?e" using pe by simp
  have "fl x - x = sgn x * (of_int (round_even ?y) * pow2 ?e - \<bar>x\<bar>)"
    using fl_scaled(1) [OF nz] by (simp add: algebra_simps flip: abs_sgn mult.assoc) (metis mult.commute abs_sgn mult_sgn_abs)
  also have "\<dots> = sgn x * ((of_int (round_even ?y) - ?y) * pow2 ?e)"
    using pe by (simp add: algebra_simps)
  finally have "\<bar>fl x - x\<bar> = \<bar>of_int (round_even ?y) - ?y\<bar> * pow2 ?e"
    using nz pe by (simp add: abs_mult abs_sgn_eq)
  also have "\<dots> \<le> (1 / 2) * pow2 ?e"
    using round_even_bounds [of ?y] pe by (intro mult_right_mono) simp_all
  also have "\<dots> \<le> \<bar>x\<bar> / 2 ^ 53"
  proof -
    have "2 ^ 52 * pow2 ?e \<le> \<bar>x\<bar>"
      using fl_scaled(2) [OF nz] pe by (simp add: pos_le_divide_eq)
    then show ?thesis by simp
  qed
  finally show ?thesis .
qed

lemma fl_exact:
  assumes "x \<noteq> 0" "\<bar>x\<bar> / pow2 (ilog2 \<bar>x\<bar> - 52) = of_int N"
  shows "fl x = x"
proof -
  define e where "e = ilog2 \<bar>x\<bar> - 52"
  have h: "of_int N * pow2 e = \<bar>x\<bar>"
    using assms(2) pow2_pos [of e] by (simp add: field_simps e_def)
  have "fl x = sgn x * (of_int N * pow2 e)"
    using fl_scaled(1) [OF assms(1)] assms(2) by (simp add: e_def mult.assoc)
  then show ?thesis by (simp add: h mult_sgn_abs)
qed


lemma fl_idem [simp]: "fl (fl x) = fl x"
proof (cases "x = 0")
  case True
  then show ?thesis by (simp add: fl_def)
next
  case nz: False
  define e where "e = ilog2 \<bar>x\<bar> - 52"
  define n where "n = round_even (\<bar>x\<bar> / pow2 e)"
  have pe: "0 < pow2 e" by (rule pow2_pos)
  have lo: "2 ^ 52 \<le> n"
    unfolding n_def e_def using fl_scaled(2) [OF nz] by (intro round_even_mono_low) simp
  have hi: "n \<le> 2 ^ 53"
    unfolding n_def e_def using fl_scaled(3) [OF nz] by (intro round_even_mono_high) simp
  have z: "fl x = sgn x * of_int n * pow2 e"
    unfolding n_def e_def by (rule fl_scaled(1) [OF nz])
  have npos: "(0::rat) < of_int n" using lo by simp
  have az: "\<bar>fl x\<bar> = of_int n * pow2 e"
    using nz pe npos by (simp add: z abs_mult abs_sgn_eq)
  have nzz: "fl x \<noteq> 0" using nz by simp
  have c: "pow2 52 = 2 ^ 52" "pow2 53 = 2 ^ 53" "pow2 1 = 2" by (simp_all add: pow2_def)
  show ?thesis
  proof (cases "n = 2 ^ 53")
    case True
    have az': "\<bar>fl x\<bar> = pow2 (e + 53)"
      by (simp add: az True pow2_add [of e 53] c mult.commute)
    have il: "ilog2 \<bar>fl x\<bar> = e + 53"
    proof (rule ilog2_unique)
      show "pow2 (e + 53) \<le> \<bar>fl x\<bar>" by (simp add: az')
      have "pow2 (e + 53) < pow2 (e + 53) * pow2 1"
        using pow2_pos [of "e + 53"] by (simp add: c)
      then show "\<bar>fl x\<bar> < pow2 (e + 53 + 1)" by (simp only: az' pow2_add)
    qed
    have "e + 53 = (e + 1) + 52" by simp
    then have sp: "pow2 (e + 53) = pow2 (e + 1) * pow2 52" by (simp only: pow2_add)
    have e1: "ilog2 \<bar>fl x\<bar> - 52 = e + 1" using il by simp
    have "\<bar>fl x\<bar> / pow2 (ilog2 \<bar>fl x\<bar> - 52) = (pow2 (e + 1) * pow2 52) / pow2 (e + 1)"
      by (simp only: e1) (simp only: az' sp)
    also have "\<dots> = of_int (2 ^ 52)"
      using pow2_pos [of "e + 1"] by (simp add: c)
    finally show ?thesis by (rule fl_exact [OF nzz])
  next
    case False
    with hi have lt: "n < 2 ^ 53" by simp
    have "ilog2 \<bar>fl x\<bar> = e + 52"
    proof (rule ilog2_unique)
      have "(2::rat) ^ 52 \<le> of_int n" using lo by (metis of_int_le_iff of_int_numeral of_int_power)
      then show "pow2 (e + 52) \<le> \<bar>fl x\<bar>"
        using pe by (simp add: az pow2_add c mult.commute mult_right_mono)
      have "of_int n < (2::rat) ^ 53" using lt by (metis of_int_less_iff of_int_numeral of_int_power)
      then have "of_int n * pow2 e < 2 ^ 53 * pow2 e"
        using pe by (simp add: mult_strict_right_mono)
      moreover have "e + 52 + 1 = e + 53" by simp
      ultimately show "\<bar>fl x\<bar> < pow2 (e + 52 + 1)"
        by (simp only: az pow2_add c mult.commute)
    qed
    then have "\<bar>fl x\<bar> / pow2 (ilog2 \<bar>fl x\<bar> - 52) = of_int n"
      using pe by (simp add: az)
    then show ?thesis by (rule fl_exact [OF nzz])
  qed
qed


lemma fl_0 [simp]: "fl 0 = 0"
  by (simp add: fl_def)


lemma fl_abs_less: "x \<noteq> 0 \<Longrightarrow> \<bar>fl x\<bar> < 2 * \<bar>x\<bar>"
proof -
  assume nz: "x \<noteq> 0"
  have "\<bar>fl x\<bar> \<le> \<bar>x\<bar> + \<bar>fl x - x\<bar>" by simp
  also have "\<dots> \<le> \<bar>x\<bar> + \<bar>x\<bar> / 2 ^ 53" using fl_error [of x] by simp
  also have "\<dots> < 2 * \<bar>x\<bar>" using nz by simp
  finally show ?thesis .
qed

text \<open>In the normal range \<open>rnd\<close> is the rounding to 53 bits.\<close>

lemma rnd_0 [simp]: "rnd 0 = Num 0"
  by (simp add: rnd_def)

lemma rnd_normal:
  assumes "pow2 (- 1022) \<le> \<bar>x\<bar>" "\<bar>x\<bar> \<le> pow2 1023"
  shows "rnd x = Num (fl x)"
proof -
  have ax: "0 < \<bar>x\<bar>" using assms(1) pow2_pos [of "- 1022"] by simp
  then have nz: "x \<noteq> 0" by simp
  define e where "e = ilog2 \<bar>x\<bar> - 52"
  define n where "n = round_even (\<bar>x\<bar> / pow2 e)"
  have "pow2 (- 1022) < pow2 (ilog2 \<bar>x\<bar> + 1)"
    using assms(1) ilog2_bounds(2) [OF ax] by simp
  then have "- 1022 < ilog2 \<bar>x\<bar> + 1" by (rule pow2_less)
  then have q: "max (ilog2 \<bar>x\<bar> - 52) (- 1074) = e" by (simp add: e_def)
  have f: "fl x = sgn x * of_int n * pow2 e"
    unfolding n_def e_def by (rule fl_scaled(1) [OF nz])
  have "(2::int) ^ 52 \<le> n"
    unfolding n_def e_def using fl_scaled(2) [OF nz] by (intro round_even_mono_low) simp
  then have npos: "0 < n" by simp
  then have p: "(0::rat) < of_int n * pow2 e" using pow2_pos [of e] by simp
  have a: "\<bar>fl x\<bar> = of_int n * pow2 e"
    using nz npos pow2_pos [of e] by (simp add: f abs_mult abs_sgn_eq)
  have "pow2 (ilog2 (of_int n * pow2 e)) \<le> of_int n * pow2 e"
    by (rule ilog2_bounds(1) [OF p])
  also have "\<dots> < 2 * \<bar>x\<bar>" using fl_abs_less [OF nz] by (simp only: a)
  also have "\<dots> \<le> 2 * pow2 1023" using assms(2) by simp
  also have "\<dots> = pow2 1024" using pow2_add [of 1 1023] by (simp add: pow2_def)
  finally have "ilog2 (of_int n * pow2 e) < 1024" by (rule pow2_less)
  then show ?thesis
    using nz npos q by (simp add: rnd_def Let_def f flip: n_def)
qed

lemma rnd_fl:
  "x = 0 \<or> (pow2 (- 1022) \<le> \<bar>x\<bar> \<and> \<bar>x\<bar> \<le> pow2 1023) \<Longrightarrow> rnd x = Num (fl x)"
  using rnd_normal [of x] by auto





section \<open>Properties of the chart renderer\<close>






















lemma texts_append [simp]: "texts (a @ b) = texts a @ texts b"
  by (induction a rule: texts.induct) simp_all






text \<open>The clock while the zone's offset is \<open>tz\<close>.\<close>

lemma setHours_next_steady:
  "utc_offset z t = tz \<Longrightarrow> local_offset z (t + tz + hour_ms) = tz
   \<Longrightarrow> setHours_next z t = TimeClip (t + hour_ms)"
  by (simp add: setHours_next_def LocalTime_def UTC_def)




text \<open>In a zone whose offset never changes the loop ends.\<close>

lemma fixed_zone_offsets [simp]:
  "utc_offset (fixed_zone tz) t = tz" "local_offset (fixed_zone tz) t = tz"
  by (simp_all add: fixed_zone_def)

lemma clock_fixed: "\<exists>hs. hour_clock (fixed_zone tz) (Some x) b = Some hs"
proof (induction "nat (b - x + 1)" arbitrary: x rule: less_induct)
  case less
  have H: "0 < hour_ms" by (simp add: hour_ms_def)
  show ?case
  proof (cases "x \<le> b")
    case False
    then show ?thesis by (simp add: hour_clock.simps [of _ "Some x" b])
  next
    case True
    have n: "setHours_next (fixed_zone tz) x = TimeClip (x + hour_ms)"
      by (rule setHours_next_steady) simp_all
    show ?thesis
    proof (cases "TimeClip (x + hour_ms)")
      case None
      then show ?thesis
        using True
        by (simp add: n hour_clock.simps [of _ "Some x" b] hour_clock.simps [of _ None b])
    next
      case (Some y)
      then have y: "y = x + hour_ms" by (simp add: TimeClip_def split: if_splits)
      have "\<exists>hs. hour_clock (fixed_zone tz) (Some (x + hour_ms)) b = Some hs"
        using True H by (intro less.hyps) simp_all
      then show ?thesis
        using True Some y by (auto simp: n hour_clock.simps [of _ "Some x" b])
    qed
  qed
qed

lemma clock_fixed_date: "\<exists>hs. hour_clock (fixed_zone tz) x b = Some hs"
  using clock_fixed [of tz _ b] by (cases x) (simp_all add: hour_clock.simps [of _ None b])

lemma markers_fixed: "\<exists>hm. markers w h (fixed_zone tz) x y = Some hm"
proof -
  have "\<exists>hm. hourly_markers w h (fixed_zone tz) a b = Some hm" for a b
    using clock_fixed_date [of tz "firstHour (fixed_zone tz) a" b]
    by (auto simp: hourly_markers_def)
  then show ?thesis
    by (cases x; cases y) (simp_all add: markers_def)
qed



text \<open>The calls of drawChart, part by part.\<close>

lemma drawChart_parts:
  assumes "length ts = length ds" "markers w h z t0 (last (t0 # ts)) = Some hourly"
  shows "drawChart w h z (d # ds) (t0 # ts)
       = Some (Inr ([ClearRect (Num 0) (Num 0) (of_int_num w) (of_int_num h)]
                    @ horizontal_grid w h (chart_max d ds)
                    @ hourly
                    @ [BeginPath]
                    @ path (line_points w h (chart_max d ds) (getTime t0)
                              (nsub (getTime (last (t0 # ts))) (getTime t0)) (d # ds) (t0 # ts))
                    @ [Stroke,
                       LineTo (lastX w (getTime t0) (getTime (last (t0 # ts)))
                                 (nsub (getTime (last (t0 # ts))) (getTime t0)))
                         (nadd pad_t (plotH h)),
                       LineTo pad_l (nadd pad_t (plotH h)),
                       ClosePath, Fill]))"
proof -
  have n: "\<not> (ngt (nsub (getTime (last (t0 # ts))) (getTime t0)) (Num 0)
              \<and> length (t0 # ts) < length (d # ds))"
    using assms(1) by simp
  show ?thesis
    unfolding drawChart_def list.case Let_def assms(2) option.case if_not_P [OF n] ..
qed








lemma texts_path [simp]: "texts (path ps) = []"
proof (cases ps)
  case (Cons p qs)
  have "texts (map line_to qs) = []" by (induction qs) auto
  then show ?thesis using Cons by (cases p) simp
qed simp








text \<open>
  C9, on the code: a reply in which the first entry has no \<^verbatim>\<open>cpu_percent\<close>. The value
  array of the CPU chart holds \<^verbatim>\<open>undefined\<close>; the scale falls back to 1 (it is not
  \<^verbatim>\<open>NaN\<close>), but the entry is not treated as 0: the line starts with a move to the
  \<open>y\<close> coordinate \<^verbatim>\<open>NaN\<close>. The disk chart's array is built with \<^verbatim>\<open>|| 0\<close> and holds 0.
\<close>

theorem missing_value_draws_NaN:
  "cpu_data gappy = [Missing, Value (Num 50)]
   \<and> map timestamp gappy = [Some t_09_15, Some t_10_45]
   \<and> chart_max Missing [Value (Num 50)] = Num 1
   \<and> path (line_points 600 150 (Num 1) (Num 33300000) (Num 5400000)
             [Missing, Value (Num 50)] [Some 33300000, Some 38700000])
       = [MoveTo (Num 50) NaN, LineTo (Num 590) (Num (- 5870))]
   \<and> (\<exists>pre post. hd (refreshMetrics 600 150 utc gappy)
          = Some (Inr (pre @ [MoveTo (Num 50) NaN, LineTo (Num 590) (Num (- 5870))] @ post)))
   \<and> disk_data gappy = [Value (Num 0), Value (Num 50)]"
proof -
  have a: "cpu_data gappy = [Missing, Value (Num 50)]"
    "map timestamp gappy = [Some t_09_15, Some t_10_45]"
    "disk_data gappy = [Value (Num 0), Value (Num 50)]"
    by (simp_all add: cpu_data_def disk_data_def gappy_def or_zero_def)
  have m: "chart_max Missing [Value (Num 50)] = Num 1"
    by (simp add: chart_max_def Math_max_def n_or_def)
  have r: "nsub (Num 38700000) (Num 33300000) = Num 5400000" by code_simp
  have g: "[Some t_09_15, Some t_10_45] = [Some 33300000, Some 38700000]"
    "getTime (Some t_09_15) = Num 33300000"
    "getTime (last [Some 33300000, Some 38700000]) = Num 38700000"
    by (simp_all add: t_09_15_def t_10_45_def)
  have h: "hd (refreshMetrics 600 150 utc gappy)
         = drawChart 600 150 utc [Missing, Value (Num 50)] [Some 33300000, Some 38700000]"
    by (simp add: refreshMetrics_def a t_09_15_def t_10_45_def)
  have lp: "line_points 600 150 (Num 1) (Num 33300000) (Num 5400000)
              [Missing, Value (Num 50)] [Some 33300000, Some 38700000]
          = [(Num 50, NaN), (Num 590, Num (- 5870))]"
    by code_simp
  then have p: "path (line_points 600 150 (Num 1) (Num 33300000) (Num 5400000)
             [Missing, Value (Num 50)] [Some 33300000, Some 38700000])
       = [MoveTo (Num 50) NaN, LineTo (Num 590) (Num (- 5870))]"
    by simp
  obtain hm where hm: "markers 600 150 utc (Some t_09_15) (last (Some t_09_15 # [Some t_10_45])) = Some hm"
    unfolding utc_def using markers_fixed by blast
  have l1: "length [Some t_10_45] = length [Value (Num 50)]" by simp
  have "\<exists>pre post. drawChart 600 150 utc (Missing # [Value (Num 50)]) (Some t_09_15 # [Some t_10_45])
           = Some (Inr (pre @ path (line_points 600 150 (chart_max Missing [Value (Num 50)])
                                (getTime (Some t_09_15))
                                (nsub (getTime (last (Some t_09_15 # [Some t_10_45])))
                                   (getTime (Some t_09_15)))
                                (Missing # [Value (Num 50)]) (Some t_09_15 # [Some t_10_45]))
                  @ post))"
    unfolding drawChart_parts [OF l1 hm]
    by (intro exI [of _ "[ClearRect (Num 0) (Num 0) (of_int_num 600) (of_int_num 150)]
                      @ horizontal_grid 600 150 (chart_max Missing [Value (Num 50)])
                      @ hm @ [BeginPath]"] exI)
       (simp only: append_assoc)
  then have e: "\<exists>pre post. hd (refreshMetrics 600 150 utc gappy)
          = Some (Inr (pre @ [MoveTo (Num 50) NaN, LineTo (Num 590) (Num (- 5870))] @ post))"
    unfolding m g r p h by (simp only: append_Cons append_Nil)
  show ?thesis by (intro conjI a m p e)
qed

end
